theory Spec2Isabelle
  imports Main "HOL-Library.Word"
begin

unbundle bit_operations_syntax

section \<open>OpSy: a shallow embedding of the scheduler and its synchronisation primitives\<close>

text \<open>
  The model follows the C++ sources function by function.

  \<^item> Pointers are 32-bit addresses (\<open>32 word\<close>); \<open>nullptr\<close> is \<open>0\<close>. Objects live in
    stores indexed by their address (\<open>tasks\<close>, \<open>conditions\<close>, \<open>mutexes\<close>).
  \<^item> \<open>duration\<close> is \<open>std::chrono::duration<int32_t, std::milli>\<close> and \<open>time_point\<close> is
    \<open>std::chrono::time_point<int64_t, duration>\<close>, whose representation is that of its
    second template argument: both are 32-bit two's complement values, modelled as
    \<open>32 word\<close>, read with \<open>sint\<close> where the code compares them, and added with the
    wrap-around of the target's 32-bit addition.
  \<^item> \<open>assert\<close> is compiled in unless \<open>NDEBUG\<close> is defined. The build is a field of the
    state; a failed assertion of a debug build is the result \<open>Inl AssertFailed\<close>, a
    dereference of a null pointer that a release build reaches is \<open>Inl NullDereference\<close>,
    and \<open>value()\<close> of an empty \<open>std::optional\<close> is \<open>Inl BadOptionalAccess\<close>.
  \<^item> An \<open>EmbeddedList\<close> is represented by the sequence of the items reached from
    \<open>m_first\<close> along \<open>m_next\<close>; \<open>m_size\<close> is the length of that sequence. The
    operations below are the source's algorithms on that sequence. The representation is
    exact as long as every item that is inserted has a free node (\<open>is_free\<close>, which the
    source asserts and the sequence cannot express) and every item that is erased is linked
    in the list it is erased from or has a free node. The ready queue and the waiting
    lists of all condition variables link a task through one and the same node
    (\<open>TaskLists::Waiting\<close>); where the source erases from a waiting list a task that is
    linked in the ready queue, the sequences no longer describe it. That case is treated
    on the links themselves (\<open>EmbeddedList_erase\<close> below, which agrees with \<open>erase\<close> on the
    sequence in the two cases above: \<open>EmbeddedList_erase_member\<close>, \<open>EmbeddedList_erase_free\<close>),
    and the properties of the sequence model are stated for the states in which the
    representation is exact.
  \<^item> All functions of \<open>Hooks\<close> have empty bodies and are left out.
\<close>

datatype error = AssertFailed | NullDereference | BadOptionalAccess

type_synonym pointer = "32 word"
type_synonym time_point = "32 word"
type_synonym duration = "32 word"
type_synonym Priority = "8 word"
type_synonym IsrPriority = "8 word"

subsection \<open>EmbeddedList\<close>

definition empty :: "'a list \<Rightarrow> bool" where
  "empty xs = (xs = [])"

text \<open>\<open>push_front\<close>, \<open>insert\<close> and \<open>insertWhen\<close> assert that the node of the item is free. The
  sequence of one list cannot tell; the assertion is part of the condition under which
  the sequences represent the lists.\<close>

definition push_front :: "'a \<Rightarrow> 'a list \<Rightarrow> 'a list" where
  "push_front item xs = item # xs"

text \<open>\<open>pop_front\<close> asserts that the list is not empty; a release build reads the
  \<open>m_next\<close> field of the null \<open>m_first\<close>.\<close>

definition pop_front :: "bool \<Rightarrow> 'a list \<Rightarrow> error + 'a list" where
  "pop_front ndebug xs =
     (case xs of
        [] \<Rightarrow> Inl (if ndebug then NullDereference else AssertFailed)
      | x # rest \<Rightarrow> Inr rest)"

text \<open>\<open>front\<close> returns \<open>*m_first\<close>; in a release build the reference taken from an empty
  list has the address \<open>nullptr\<close>.\<close>

definition front :: "bool \<Rightarrow> pointer list \<Rightarrow> error + pointer" where
  "front ndebug xs =
     (case xs of
        [] \<Rightarrow> (if ndebug then Inr 0 else Inl AssertFailed)
      | x # rest \<Rightarrow> Inr x)"

text \<open>\<open>erase\<close> unlinks the item when it is in the list and leaves the list alone when the
  item is a free node. The source goes by the links of the item and does not look for it
  in the list; an item that is linked in another list through the same node is not
  covered by the sequence (see \<open>EmbeddedList_erase\<close>).\<close>

fun erase :: "'a \<Rightarrow> 'a list \<Rightarrow> 'a list" where
  "erase item [] = []"
| "erase item (x # rest) = (if x = item then rest else x # erase item rest)"

text \<open>\<open>insertWhen\<close>: the item goes to the front when the list is empty or the predicate
  holds against the first item; otherwise the loop walks \<open>previous\<close>/\<open>current\<close> while
  \<open>predicate(item, *current) == false\<close> and the item is linked after \<open>previous\<close>. A
  predicate may fail an assertion, which ends the insertion.\<close>

fun insertWhen_loop :: "('a \<Rightarrow> 'a \<Rightarrow> error + bool) \<Rightarrow> 'a \<Rightarrow> 'a list \<Rightarrow> error + 'a list" where
  "insertWhen_loop predicate item [] = Inr [item]"
| "insertWhen_loop predicate item (current # rest) =
     (case predicate item current of
        Inl e \<Rightarrow> Inl e
      | Inr False \<Rightarrow>
          (case insertWhen_loop predicate item rest of
             Inl e \<Rightarrow> Inl e
           | Inr rest' \<Rightarrow> Inr (current # rest'))
      | Inr True \<Rightarrow> Inr (item # current # rest))"

definition insertWhen :: "('a \<Rightarrow> 'a \<Rightarrow> error + bool) \<Rightarrow> 'a \<Rightarrow> 'a list \<Rightarrow> error + 'a list" where
  "insertWhen predicate item xs =
     (case xs of
        [] \<Rightarrow> Inr (push_front item xs)
      | first # rest \<Rightarrow>
          (case predicate item first of
             Inl e \<Rightarrow> Inl e
           | Inr True \<Rightarrow> Inr (push_front item xs)
           | Inr False \<Rightarrow>
               (case insertWhen_loop predicate item rest of
                  Inl e \<Rightarrow> Inl e
                | Inr rest' \<Rightarrow> Inr (first # rest'))))"

subsection \<open>IsrPriority\<close>

definition kMaxPreemptionBits :: nat where
  "kMaxPreemptionBits = 8"

definition kPreemptionBits :: nat where
  "kPreemptionBits = 2"

definition kOpsyPreemption :: "8 word" where
  "kOpsyPreemption = 1"

definition FromPreemptSub :: "nat \<Rightarrow> 8 word \<Rightarrow> 8 word \<Rightarrow> IsrPriority" where
  "FromPreemptSub PreemptBits preempt sub =
     (push_bit (kMaxPreemptionBits - PreemptBits) (preempt AND (push_bit PreemptBits 1 - 1)))
       OR (sub AND (push_bit (kMaxPreemptionBits - PreemptBits) 1 - 1))"

definition maskedValue :: "nat \<Rightarrow> IsrPriority \<Rightarrow> 8 word" where
  "maskedValue PriorityBits v =
     v AND push_bit (kMaxPreemptionBits - PriorityBits) (push_bit PriorityBits 1 - 1)"

definition minSub :: "8 word" where
  "minSub = push_bit (7 + 1 - kPreemptionBits) 1 - 1"

definition minPreempt :: "8 word" where
  "minPreempt = push_bit kPreemptionBits 1 - 1"

definition kServiceCallPriority :: IsrPriority where
  "kServiceCallPriority = FromPreemptSub kPreemptionBits kOpsyPreemption 0"

definition kSystickPriority :: IsrPriority where
  "kSystickPriority = FromPreemptSub kPreemptionBits kOpsyPreemption minSub"

definition kPendSvPriority :: IsrPriority where
  "kPendSvPriority = FromPreemptSub kPreemptionBits minPreempt minSub"

definition kLowestPriority :: IsrPriority where
  "kLowestPriority = 0xFF"

subsection \<open>Objects\<close>

text \<open>\<open>std::cv_status\<close>, as the value written to the saved register.\<close>

definition no_timeout :: "32 word" where
  "no_timeout = 0"

definition timeout :: "32 word" where
  "timeout = 1"

definition Startup :: time_point where
  "Startup = 0"

record TaskControlBlock =
  m_stackBase :: pointer
  m_stackSize :: "32 word"
  m_active :: bool
  m_stackPointer :: pointer
  m_priority :: Priority
  m_lastStarted :: time_point
  m_waitUntil :: "time_point option"
  m_name :: "string option"
  m_entry :: "nat option"
  m_waiting :: pointer
  m_mutex :: pointer

text \<open>\<open>PriorityMutex\<close>: \<open>m_criticalSection\<close> is the \<open>m_valid\<close> flag of the handle the
  mutex holds; \<open>m_isrPriority\<close> is the source's \<open>m_priority\<close>.\<close>

record PriorityMutex =
  m_locked :: bool
  m_previousLock :: IsrPriority
  m_criticalSection :: bool
  m_isrPriority :: "IsrPriority option"

text \<open>\<open>ConditionVariable\<close>: \<open>cv_mutex\<close> is the source's member \<open>m_mutex\<close>.\<close>

record ConditionVariable =
  cv_mutex :: PriorityMutex
  m_waitingList :: "pointer list"

text \<open>The state: the build, the constants of the firmware image that \<open>Task.cpp\<close> uses
  (\<open>Dummy\<close> and the addresses of \<open>taskStarter\<close> and \<open>terminateTask\<close>), the registers of the
  core that the kernel reads back (\<open>BASEPRI\<close>, \<open>PRIMASK\<close>, \<open>IPSR\<close>, the pending bit of
  PendSV, the priority bytes, the SysTick reload value), the memory holding the stacks,
  the static members of \<open>Scheduler\<close>, and the object stores. \<open>idle_stackPointer\<close> gives
  the \<open>m_stackPointer\<close> of each \<open>IdleTaskControlBlock\<close>. The vector table, \<open>AIRCR\<close>,
  \<open>MSP\<close>, \<open>PSP\<close> and \<open>CONTROL\<close> are written by \<open>Scheduler::start\<close> and never read by the
  functions modelled here; they are left out.\<close>

record state =
  NDEBUG :: bool
  Dummy :: "32 word"
  taskStarter :: pointer
  terminateTask :: pointer
  cpuid_partno :: "16 word"
  coreClock :: "32 word"
  basepri :: IsrPriority
  primask :: bool
  ipsr :: "32 word"
  pendsv :: bool
  scb_shp :: "32 word \<Rightarrow> 8 word"
  nvic_ip :: "32 word \<Rightarrow> 8 word"
  systick_load :: "32 word option"
  memory :: "pointer \<Rightarrow> 32 word"
  s_isStarted :: bool
  s_ticks :: time_point
  s_allTasks :: "pointer list"
  s_timeouts :: "pointer list"
  s_ready :: "pointer list"
  s_idling :: bool
  s_mayNeedSwitch :: bool
  s_idle :: pointer
  s_previousTask :: pointer
  s_currentTask :: pointer
  s_nextTask :: pointer
  s_criticalSection :: bool
  tasks :: "pointer \<Rightarrow> TaskControlBlock"
  conditions :: "pointer \<Rightarrow> ConditionVariable"
  mutexes :: "pointer \<Rightarrow> PriorityMutex"
  idle_stackPointer :: "pointer \<Rightarrow> pointer"

text \<open>\<open>assert(c)\<close> fails in a debug build when \<open>c\<close> is false.\<close>

definition assert_fails :: "state \<Rightarrow> bool \<Rightarrow> bool" where
  "assert_fails s c = (\<not> NDEBUG s \<and> \<not> c)"

subsection \<open>TaskControlBlock: comparators and the saved return value\<close>

definition priorityIsLower :: "(pointer \<Rightarrow> TaskControlBlock) \<Rightarrow> pointer \<Rightarrow> pointer \<Rightarrow> bool" where
  "priorityIsLower ts left right =
     (if m_priority (ts left) > m_priority (ts right) then False
      else if m_priority (ts left) < m_priority (ts right) then True
      else sint (m_lastStarted (ts left)) < sint (m_lastStarted (ts right)))"

definition value_or :: "'a option \<Rightarrow> 'a \<Rightarrow> 'a" where
  "value_or v d = (case v of None \<Rightarrow> d | Some x \<Rightarrow> x)"

definition has_value :: "'a option \<Rightarrow> bool" where
  "has_value v = (v \<noteq> None)"

definition wakeupAfter :: "bool \<Rightarrow> (pointer \<Rightarrow> TaskControlBlock) \<Rightarrow> pointer \<Rightarrow> pointer \<Rightarrow> error + bool" where
  "wakeupAfter ndebug ts left right =
     (if \<not> ndebug \<and> \<not> (has_value (m_waitUntil (ts left)) \<and> has_value (m_waitUntil (ts right)))
      then Inl AssertFailed
      else Inr (sint (value_or (m_waitUntil (ts left)) Startup)
                  < sint (value_or (m_waitUntil (ts right)) Startup)))"

text \<open>The two insertions the scheduler performs. \<open>priorityIsLower\<close> has no assertion.\<close>

definition insert_by_priority :: "(pointer \<Rightarrow> TaskControlBlock) \<Rightarrow> pointer \<Rightarrow> pointer list \<Rightarrow> error + pointer list" where
  "insert_by_priority ts item xs = insertWhen (\<lambda>l r. Inr (priorityIsLower ts l r)) item xs"

definition insert_by_wakeup :: "bool \<Rightarrow> (pointer \<Rightarrow> TaskControlBlock) \<Rightarrow> pointer \<Rightarrow> pointer list \<Rightarrow> error + pointer list" where
  "insert_by_wakeup ndebug ts item xs = insertWhen (wakeupAfter ndebug ts) item xs"

definition kFpFlag :: "32 word" where
  "kFpFlag = 0b10000"

text \<open>Sizes in \<open>StackItem\<close>s: \<open>StackFrame\<close> has 8 words, \<open>Context\<close> 10, \<open>FpContext\<close> 16.
  \<open>item_offset p n\<close> is \<open>p + n\<close> on a \<open>StackItem*\<close>.\<close>

definition sizeof_StackFrame :: "32 word" where "sizeof_StackFrame = 8"
definition sizeof_Context :: "32 word" where "sizeof_Context = 10"
definition sizeof_FpContext :: "32 word" where "sizeof_FpContext = 16"

definition item_offset :: "pointer \<Rightarrow> 32 word \<Rightarrow> pointer" where
  "item_offset p n = p + 4 * n"

text \<open>The address of the \<open>r0\<close> slot of the frame stacked on exception entry: above the
  saved context, and above the floating-point context when bit 4 of the saved \<open>lr\<close> is
  clear. \<open>lr\<close> is the first word of \<open>Context\<close>, \<open>r0\<close> the first word of \<open>StackFrame\<close>.\<close>

definition returnValueSlot :: "state \<Rightarrow> pointer \<Rightarrow> pointer" where
  "returnValueSlot s task =
     (let ptr = m_stackPointer (tasks s task) in
      if (memory s ptr) AND kFpFlag = 0
      then item_offset ptr (sizeof_Context + sizeof_FpContext)
      else item_offset ptr sizeof_Context)"

definition setReturnValue :: "pointer \<Rightarrow> 32 word \<Rightarrow> state \<Rightarrow> state" where
  "setReturnValue task v s = s\<lparr>memory := (memory s)(returnValueSlot s task := v)\<rparr>"

definition returnValue :: "state \<Rightarrow> pointer \<Rightarrow> 32 word" where
  "returnValue s task = memory s (returnValueSlot s task)"

subsection \<open>CortexM\<close>

definition triggerPendSv :: "state \<Rightarrow> state" where
  "triggerPendSv s = s\<lparr>pendsv := True\<rparr>"

definition clearPendSv :: "state \<Rightarrow> state" where
  "clearPendSv s = s\<lparr>pendsv := False\<rparr>"

definition setBasepri :: "IsrPriority \<Rightarrow> state \<Rightarrow> IsrPriority \<times> state" where
  "setBasepri priority s = (basepri s, s\<lparr>basepri := priority\<rparr>)"

definition MaxIrq :: "32 word" where
  "MaxIrq = 239"

definition kSystemIrqs :: "32 word" where
  "kSystemIrqs = 16"

text \<open>\<open>getPriority(SystemIrq)\<close> accepts the exceptions 2, 3, 11, 14 and 15 and asserts
  \<open>false\<close> on the others; \<open>getPriority(uint32_t)\<close> asserts \<open>irq <= MaxIrq\<close>.
  \<open>currentPriority\<close> is only called inside assertions, that is, in debug builds.\<close>

definition currentPriority :: "state \<Rightarrow> error + IsrPriority option" where
  "currentPriority s =
     (let ipsrValue = ipsr s in
      if ipsrValue = 0 then Inr None
      else if ipsrValue < kSystemIrqs then
        (if ipsrValue \<in> {2, 3, 11, 14, 15} then Inr (Some (scb_shp s ipsrValue))
         else Inl AssertFailed)
      else
        (if ipsrValue - kSystemIrqs \<le> MaxIrq then Inr (Some (nvic_ip s (ipsrValue - kSystemIrqs)))
         else Inl AssertFailed))"

subsection \<open>Scheduler::doSwitch\<close>

text \<open>The three steps of \<open>doSwitch\<close> outside a critical section: the re-insertion of
  \<open>s_nextTask\<close>, the re-insertion of \<open>s_currentTask\<close>, and the choice of the next task,
  which compares the head of the ready queue with \<open>current\<close>, the value \<open>s_currentTask\<close>
  had before it was cleared.\<close>

definition doSwitch_next :: "state \<Rightarrow> error + state" where
  "doSwitch_next s =
     (if s_nextTask s \<noteq> 0 then
        (if assert_fails s (s_currentTask s \<noteq> s_nextTask s) then Inl AssertFailed
         else
           (case insert_by_priority (tasks s) (s_nextTask s) (s_ready s) of
              Inl e \<Rightarrow> Inl e
            | Inr r \<Rightarrow> Inr (s\<lparr>s_ready := r, s_nextTask := 0\<rparr>)))
      else Inr s)"

definition doSwitch_current :: "state \<Rightarrow> error + state" where
  "doSwitch_current s =
     (if s_currentTask s \<noteq> 0 then
        (case insert_by_priority (tasks s) (s_currentTask s) (s_ready s) of
           Inl e \<Rightarrow> Inl e
         | Inr r \<Rightarrow> Inr (s\<lparr>s_ready := r, s_currentTask := 0\<rparr>))
      else Inr s)"

definition doSwitch_pick :: "pointer \<Rightarrow> state \<Rightarrow> error + (bool \<times> state)" where
  "doSwitch_pick current s =
     (if empty (s_ready s) then Inr (True, triggerPendSv s)
      else
        (case front (NDEBUG s) (s_ready s) of
           Inl e \<Rightarrow> Inl e
         | Inr f \<Rightarrow>
             (case pop_front (NDEBUG s) (s_ready s) of
                Inl e \<Rightarrow> Inl e
              | Inr r \<Rightarrow>
                  (let s1 = s\<lparr>s_nextTask := f, s_ready := r\<rparr> in
                   if s_nextTask s1 = current
                   then Inr (False, s1\<lparr>s_currentTask := s_nextTask s1, s_nextTask := 0\<rparr>)
                   else Inr (True, triggerPendSv s1)))))"

definition doSwitch :: "state \<Rightarrow> error + (bool \<times> state)" where
  "doSwitch s =
     (if assert_fails s (s_isStarted s) then Inl AssertFailed
      else if assert_fails s (s_currentTask s \<noteq> 0 \<or> s_criticalSection s = False) then Inl AssertFailed
      else if s_criticalSection s then Inr (False, s\<lparr>s_mayNeedSwitch := True\<rparr>)
      else
        (case doSwitch_next s of
           Inl e \<Rightarrow> Inl e
         | Inr s1 \<Rightarrow>
             (let current = s_currentTask s1 in
              case doSwitch_current s1 of
                Inl e \<Rightarrow> Inl e
              | Inr s2 \<Rightarrow> doSwitch_pick current s2)))"

subsection \<open>Stores\<close>

definition update_task :: "pointer \<Rightarrow> (TaskControlBlock \<Rightarrow> TaskControlBlock) \<Rightarrow> state \<Rightarrow> state" where
  "update_task task f s = s\<lparr>tasks := (tasks s)(task := f (tasks s task))\<rparr>"

definition update_condition :: "pointer \<Rightarrow> (ConditionVariable \<Rightarrow> ConditionVariable) \<Rightarrow> state \<Rightarrow> state" where
  "update_condition condition f s = s\<lparr>conditions := (conditions s)(condition := f (conditions s condition))\<rparr>"

definition update_mutex :: "pointer \<Rightarrow> (PriorityMutex \<Rightarrow> PriorityMutex) \<Rightarrow> state \<Rightarrow> state" where
  "update_mutex mutex f s = s\<lparr>mutexes := (mutexes s)(mutex := f (mutexes s mutex))\<rparr>"

subsection \<open>ConditionVariable::addWaiting, removeWaiting\<close>

definition addWaiting :: "pointer \<Rightarrow> pointer \<Rightarrow> state \<Rightarrow> error + state" where
  "addWaiting condition task s =
     (case insert_by_priority (tasks s) task (m_waitingList (conditions s condition)) of
        Inl e \<Rightarrow> Inl e
      | Inr l \<Rightarrow> Inr (update_condition condition (\<lambda>c. c\<lparr>m_waitingList := l\<rparr>) s))"

definition removeWaiting :: "pointer \<Rightarrow> pointer \<Rightarrow> state \<Rightarrow> state" where
  "removeWaiting condition task s =
     update_condition condition (\<lambda>c. c\<lparr>m_waitingList := erase task (m_waitingList c)\<rparr>) s"

subsection \<open>Critical sections\<close>


definition triggerSoftSwitch :: "state \<Rightarrow> error + state" where
  "triggerSoftSwitch s =
     (case setBasepri kServiceCallPriority s of
        (previous, s1) \<Rightarrow>
          (let s2 = s1\<lparr>s_mayNeedSwitch := False\<rparr> in
           if assert_fails s2 (previous = 0) then Inl AssertFailed
           else
             (case doSwitch s2 of
                Inl e \<Rightarrow> Inl e
              | Inr (r, s3) \<Rightarrow> Inr (snd (setBasepri previous s3)))))"

definition criticalSectionEnd :: "state \<Rightarrow> error + state" where
  "criticalSectionEnd s =
     (if assert_fails s (s_criticalSection s = True) then Inl AssertFailed
      else
        (let s1 = s\<lparr>s_criticalSection := False\<rparr> in
         if s_mayNeedSwitch s1 then triggerSoftSwitch s1 else Inr s1))"

text \<open>The destructor of a \<open>CriticalSection\<close> handle with the given \<open>m_valid\<close>.\<close>

definition CriticalSection_destroy :: "bool \<Rightarrow> state \<Rightarrow> error + state" where
  "CriticalSection_destroy valid s = (if valid then criticalSectionEnd s else Inr s)"

subsection \<open>PriorityMutex\<close>



text \<open>\<open>unlock\<close> returns at once when \<open>m_locked\<close> is false, and never clears the flag.
  \<open>auto tmp = std::move(m_criticalSection)\<close> leaves the member invalid and ends the critical
  section in the destructor of \<open>tmp\<close> when the handle was valid.\<close>

definition unlock :: "PriorityMutex \<Rightarrow> state \<Rightarrow> error + (PriorityMutex \<times> state)" where
  "unlock m s =
     (if \<not> m_locked m then Inr (m, s)
      else
        (case m_isrPriority m of
           Some p \<Rightarrow>
             (if p = 0 then
                (if assert_fails s (primask s) then Inl AssertFailed
                 else Inr (m, s\<lparr>primask := False\<rparr>))
              else
                (case setBasepri (m_previousLock m) s of
                   (was, s1) \<Rightarrow>
                     (if assert_fails s1 (maskedValue kPreemptionBits was = maskedValue kPreemptionBits p)
                      then Inl AssertFailed
                      else
                        (case CriticalSection_destroy (m_criticalSection m) s1 of
                           Inl e \<Rightarrow> Inl e
                         | Inr s2 \<Rightarrow> Inr (m\<lparr>m_criticalSection := False\<rparr>, s2)))))
         | None \<Rightarrow>
             (if assert_fails s (ipsr s = 0) then Inl AssertFailed
              else
                (case CriticalSection_destroy (m_criticalSection m) s of
                   Inl e \<Rightarrow> Inl e
                 | Inr s2 \<Rightarrow> Inr (m\<lparr>m_criticalSection := False\<rparr>, s2)))))"

text \<open>\<open>reLockFromPendSv\<close> takes the \<open>m_valid\<close> of the handle passed in and the build.\<close>

definition reLockFromPendSv :: "bool \<Rightarrow> PriorityMutex \<Rightarrow> bool \<Rightarrow> error + (32 word \<times> PriorityMutex)" where
  "reLockFromPendSv ndebug m section =
     (if \<not> ndebug \<and> m_criticalSection m then Inl AssertFailed
      else
        (let m1 = m\<lparr>m_criticalSection := section\<rparr> in
         case
           (case m_isrPriority m1 of
              Some p \<Rightarrow>
                (if \<not> ndebug \<and> \<not> (p \<noteq> 0) then Inl AssertFailed
                 else Inr (m1\<lparr>m_previousLock := 0\<rparr>))
            | None \<Rightarrow> Inr m1) of
           Inl e \<Rightarrow> Inl e
         | Inr m2 \<Rightarrow>
             Inr (ucast (maskedValue kPreemptionBits (value_or (m_isrPriority m2) 0)),
                  m2\<lparr>m_locked := True\<rparr>)))"

definition releaseFromServiceCall :: "PriorityMutex \<Rightarrow> state \<Rightarrow> error + state" where
  "releaseFromServiceCall m s =
     (if assert_fails s (m_locked m) then Inl AssertFailed
      else
        (case m_isrPriority m of
           Some p \<Rightarrow>
             (if p = 0 then
                (if assert_fails s (primask s) then Inl AssertFailed
                 else Inr (s\<lparr>primask := False\<rparr>))
              else
                (case setBasepri (m_previousLock m) s of
                   (was, s1) \<Rightarrow>
                     (if assert_fails s1 (maskedValue kPreemptionBits was = maskedValue kPreemptionBits p)
                      then Inl AssertFailed
                      else Inr s1)))
         | None \<Rightarrow> Inr s))"

subsection \<open>Scheduler: addTask, wakeUp, updatePriority\<close>

definition addTask :: "pointer \<Rightarrow> state \<Rightarrow> error + state" where
  "addTask task s =
     (let s1 = s\<lparr>s_allTasks := push_front task (s_allTasks s)\<rparr> in
      case insert_by_priority (tasks s1) task (s_ready s1) of
        Inl e \<Rightarrow> Inl e
      | Inr r \<Rightarrow>
          (let s2 = s1\<lparr>s_ready := r\<rparr> in
           if s_isStarted s2 then triggerSoftSwitch s2 else Inr s2))"


definition isStarted :: "TaskControlBlock \<Rightarrow> bool" where
  "isStarted t = m_active t"

definition updatePriority :: "pointer \<Rightarrow> Priority \<Rightarrow> state \<Rightarrow> error + state" where
  "updatePriority task newPriority s =
     (case setBasepri kServiceCallPriority s of
        (previous, s0) \<Rightarrow>
          (let s1 = update_task task (\<lambda>t. t\<lparr>m_priority := newPriority\<rparr>) s0 in
           case
             (if isStarted (tasks s1 task) then
                (if task = s_currentTask s1 \<or> task = s_nextTask s1 then
                   (case doSwitch s1 of Inl e \<Rightarrow> Inl e | Inr (b, s2) \<Rightarrow> Inr s2)
                 else if m_waiting (tasks s1 task) \<noteq> 0 then
                   addWaiting (m_waiting (tasks s1 task)) task
                     (removeWaiting (m_waiting (tasks s1 task)) task s1)
                 else if \<not> has_value (m_waitUntil (tasks s1 task)) then
                   (case insert_by_priority (tasks s1) task (erase task (s_ready s1)) of
                      Inl e \<Rightarrow> Inl e
                    | Inr r \<Rightarrow>
                        (let s2 = s1\<lparr>s_ready := r\<rparr> in
                         case front (NDEBUG s2) (s_ready s2) of
                           Inl e \<Rightarrow> Inl e
                         | Inr f \<Rightarrow>
                             (if f = task then
                                (case doSwitch s2 of Inl e \<Rightarrow> Inl e | Inr (b, s3) \<Rightarrow> Inr s3)
                              else Inr s2)))
                 else Inr s1)
              else Inr s1) of
             Inl e \<Rightarrow> Inl e
           | Inr s' \<Rightarrow> Inr (snd (setBasepri previous s'))))"

subsection \<open>Scheduler::pendSvHandler\<close>

text \<open>The result packs the stack pointer to restore in the low half and the base
  priority of a re-acquired mutex in the high half. \<open>reinterpret_cast<uint64_t>\<close> of a 32-bit
  pointer extends the sign (GCC), \<open>static_cast<uint64_t>\<close> of the \<open>uint32_t\<close> priority does
  not.\<close>

definition pendSvHandler :: "pointer \<Rightarrow> state \<Rightarrow> error + (64 word \<times> state)" where
  "pendSvHandler psp s =
     (let s1 = clearPendSv s;
          s2 = (if s_previousTask s1 \<noteq> 0
                then update_task (s_previousTask s1) (\<lambda>t. t\<lparr>m_stackPointer := psp\<rparr>) s1
                else s1)
      in
      case (if s_idling s2
            then (if s_idle s2 = 0 then Inl NullDereference
                  else Inr (s2\<lparr>idle_stackPointer := (idle_stackPointer s2)(s_idle s2 := psp)\<rparr>))
            else Inr s2) of
        Inl e \<Rightarrow> Inl e
      | Inr s3 \<Rightarrow>
          (if s_nextTask s3 = 0 then
             (if s_idle s3 = 0 then Inl NullDereference
              else Inr (scast (idle_stackPointer s3 (s_idle s3)),
                        s3\<lparr>s_idling := True, s_previousTask := 0\<rparr>))
           else
             (let s4 = s3\<lparr>s_idling := False, s_previousTask := s_nextTask s3,
                          s_currentTask := s_nextTask s3\<rparr>;
                  current = s_currentTask s4;
                  result = scast (m_stackPointer (tasks s4 current));
                  s5 = update_task current (\<lambda>t. t\<lparr>m_lastStarted := s_ticks s4\<rparr>) s4;
                  s6 = s5\<lparr>s_nextTask := 0\<rparr>
              in
              case (if m_mutex (tasks s6 current) \<noteq> 0
                    then (case reLockFromPendSv (NDEBUG s6) (mutexes s6 (m_mutex (tasks s6 current))) True of
                            Inl e \<Rightarrow> Inl e
                          | Inr (p, m') \<Rightarrow>
                              Inr (result OR push_bit 32 (ucast p),
                                   update_task current (\<lambda>t. t\<lparr>m_mutex := 0\<rparr>)
                                     ((update_mutex (m_mutex (tasks s6 current)) (\<lambda>m. m') s6)
                                        \<lparr>s_criticalSection := True\<rparr>)))
                    else Inr (result, s6)) of
                Inl e \<Rightarrow> Inl e
              | Inr (res, s7) \<Rightarrow>
                  (if assert_fails s7 (isStarted (tasks s7 (s_currentTask s7))) then Inl AssertFailed
                   else Inr (res, s7)))))"

subsection \<open>Scheduler::serviceCallHandler\<close>

record StackFrame =
  r0 :: "32 word"
  r1 :: "32 word"
  r2 :: "32 word"
  r3 :: "32 word"
  r12 :: "32 word"
  lr :: "32 word"
  pc :: "32 word"
  psr :: "32 word"

definition Terminate :: "8 word" where "Terminate = 0"
definition Sleep :: "8 word" where "Sleep = 1"
definition Switch :: "8 word" where "Switch = 2"
definition Wait :: "8 word" where "Wait = 3"

text \<open>Each case of the \<open>switch\<close> returns the value of \<open>taskSwitch\<close> and the new state.\<close>

text \<open>\<open>Terminate\<close>, after the exchange on \<open>m_active\<close> has returned true: the removal of
  the task from the lists. The ready queue is not among them. \<open>removeWaiting\<close> is \<open>erase\<close> on
  the waiting list that \<open>m_waiting\<close> names; where the task is not on that list and is linked
  in the ready queue (after a wait that timed out), the source changes both lists through
  the shared node, and the sequences here do not describe it (see \<open>EmbeddedList_erase\<close> and
  \<open>timed_out_ready\<close>).\<close>

definition Terminate_unlink :: "pointer \<Rightarrow> state \<Rightarrow> state" where
  "Terminate_unlink task s =
     (let s1 = update_task task (\<lambda>t. t\<lparr>m_active := False\<rparr>) s;
          s2 = s1\<lparr>s_allTasks := erase task (s_allTasks s1)\<rparr>;
          s3 = (if has_value (m_waitUntil (tasks s2 task))
                then update_task task (\<lambda>t. t\<lparr>m_waitUntil := None\<rparr>)
                       (s2\<lparr>s_timeouts := erase task (s_timeouts s2)\<rparr>)
                else s2);
          s4 = (if m_waiting (tasks s3 task) \<noteq> 0
                then update_task task (\<lambda>t. t\<lparr>m_waiting := 0\<rparr>)
                       (removeWaiting (m_waiting (tasks s3 task)) task s3)
                else s3)
      in s4)"

definition svc_Terminate :: "StackFrame \<Rightarrow> state \<Rightarrow> error + (bool \<times> state)" where
  "svc_Terminate frame s =
     (if assert_fails s (r0 frame \<noteq> 0) then Inl AssertFailed
      else if r0 frame = 0 then Inl NullDereference
      else
        (let task = r0 frame in
         if \<not> m_active (tasks s task) then Inr (False, s)
         else
           (let s4 = Terminate_unlink task s in
            if task = s_currentTask s4 then
              (if assert_fails s4 (\<not> s_criticalSection s4) then Inl AssertFailed
               else doSwitch (s4\<lparr>s_currentTask := 0, s_previousTask := 0\<rparr>))
            else Inr (False, s4))))"

definition svc_Sleep :: "StackFrame \<Rightarrow> bool \<Rightarrow> state \<Rightarrow> error + (bool \<times> state)" where
  "svc_Sleep frame isThread s =
     (if assert_fails s isThread then Inl AssertFailed
      else if assert_fails s (\<not> s_criticalSection s) then Inl AssertFailed
      else if assert_fails s (s_currentTask s \<noteq> 0) then Inl AssertFailed
      else
        (let delta = r0 frame + 1 in
         if assert_fails s (sint delta \<ge> 0) then Inl AssertFailed
         else if s_currentTask s = 0 then Inl NullDereference
         else
           (let s1 = update_task (s_currentTask s) (\<lambda>t. t\<lparr>m_waitUntil := Some (s_ticks s + delta)\<rparr>) s in
            case insert_by_wakeup (NDEBUG s1) (tasks s1) (s_currentTask s1) (s_timeouts s1) of
              Inl e \<Rightarrow> Inl e
            | Inr l \<Rightarrow> doSwitch (s1\<lparr>s_timeouts := l, s_currentTask := 0\<rparr>))))"

definition svc_Switch :: "bool \<Rightarrow> state \<Rightarrow> error + (bool \<times> state)" where
  "svc_Switch isThread s =
     (if assert_fails s isThread then Inl AssertFailed
      else if assert_fails s (\<not> s_criticalSection s) then Inl AssertFailed
      else doSwitch s)"

text \<open>The three steps of \<open>Wait\<close> before the task is queued on the condition variable.\<close>

definition svc_Wait_timeout :: "duration \<Rightarrow> state \<Rightarrow> error + state" where
  "svc_Wait_timeout tmo s =
     (if sint tmo \<ge> 0 then
        (let s1 = update_task (s_currentTask s) (\<lambda>t. t\<lparr>m_waitUntil := Some (s_ticks s + tmo)\<rparr>) s in
         case insert_by_wakeup (NDEBUG s1) (tasks s1) (s_currentTask s1) (s_timeouts s1) of
           Inl e \<Rightarrow> Inl e
         | Inr l \<Rightarrow> Inr (s1\<lparr>s_timeouts := l\<rparr>))
      else Inr s)"

definition svc_Wait_mutex :: "pointer \<Rightarrow> state \<Rightarrow> error + state" where
  "svc_Wait_mutex mutex s =
     (if mutex \<noteq> 0 then
        (if assert_fails s (s_criticalSection s = True) then Inl AssertFailed
         else
           (let s1 = update_task (s_currentTask s) (\<lambda>t. t\<lparr>m_mutex := mutex\<rparr>) s in
            case releaseFromServiceCall (mutexes s1 mutex) s1 of
              Inl e \<Rightarrow> Inl e
            | Inr s2 \<Rightarrow>
                (if assert_fails s2 (m_criticalSection (mutexes s2 mutex)) then Inl AssertFailed
                 else Inr ((update_mutex mutex (\<lambda>m. m\<lparr>m_criticalSection := False\<rparr>) s2)
                             \<lparr>s_criticalSection := False\<rparr>))))
      else Inr s)"

definition svc_Wait :: "StackFrame \<Rightarrow> bool \<Rightarrow> state \<Rightarrow> error + (bool \<times> state)" where
  "svc_Wait frame isThread s =
     (if assert_fails s isThread then Inl AssertFailed
      else if assert_fails s (r0 frame \<noteq> 0) then Inl AssertFailed
      else if assert_fails s (s_currentTask s \<noteq> 0) then Inl AssertFailed
      else if r0 frame = 0 \<or> s_currentTask s = 0 then Inl NullDereference
      else
        (let condition = r0 frame; tmo = r1 frame; mutex = r2 frame in
         case svc_Wait_timeout tmo s of
           Inl e \<Rightarrow> Inl e
         | Inr s1 \<Rightarrow>
             (case svc_Wait_mutex mutex s1 of
                Inl e \<Rightarrow> Inl e
              | Inr s2 \<Rightarrow>
                  (case addWaiting condition (s_currentTask s2) s2 of
                     Inl e \<Rightarrow> Inl e
                   | Inr s3 \<Rightarrow>
                       doSwitch ((update_task (s_currentTask s3) (\<lambda>t. t\<lparr>m_waiting := condition\<rparr>) s3)
                                   \<lparr>s_currentTask := 0\<rparr>)))))"

definition serviceCallHandler :: "StackFrame \<Rightarrow> 8 word \<Rightarrow> bool \<Rightarrow> state \<Rightarrow> error + (bool \<times> state)" where
  "serviceCallHandler frame parameter isThread s =
     (if parameter = Terminate then svc_Terminate frame s
      else if parameter = Sleep then svc_Sleep frame isThread s
      else if parameter = Switch then svc_Switch isThread s
      else if parameter = Wait then svc_Wait frame isThread s
      else if assert_fails s False then Inl AssertFailed
      else Inr (False, s))"

text \<open>The \<open>svc\<close> instruction: the handler receives the registers the caller loaded, and
  \<open>isThread\<close> tells whether the caller ran in thread mode.\<close>

definition svc :: "8 word \<Rightarrow> 32 word \<Rightarrow> 32 word \<Rightarrow> 32 word \<Rightarrow> state \<Rightarrow> error + (bool \<times> state)" where
  "svc parameter a0 a1 a2 s =
     serviceCallHandler \<lparr>r0 = a0, r1 = a1, r2 = a2, r3 = 0, r12 = 0, lr = 0, pc = 0, psr = 0\<rparr>
       parameter (ipsr s = 0) s"

subsection \<open>Scheduler::SystickHandler\<close>

text \<open>The body of the \<open>while\<close> loop, for the task at the head of the timeout queue.\<close>

definition SystickHandler_body :: "state \<Rightarrow> error + state" where
  "SystickHandler_body s =
     (case front (NDEBUG s) (s_timeouts s) of
        Inl e \<Rightarrow> Inl e
      | Inr task \<Rightarrow>
          (case pop_front (NDEBUG s) (s_timeouts s) of
             Inl e \<Rightarrow> Inl e
           | Inr l \<Rightarrow>
               (let s1 = update_task task (\<lambda>t. t\<lparr>m_waitUntil := None\<rparr>) (s\<lparr>s_timeouts := l\<rparr>);
                    s2 = (if m_waiting (tasks s1 task) \<noteq> 0
                          then setReturnValue task timeout
                                 (removeWaiting (m_waiting (tasks s1 task)) task s1)
                          else s1)
                in
                case insert_by_priority (tasks s2) task (s_ready s2) of
                  Inl e \<Rightarrow> Inl e
                | Inr r \<Rightarrow> Inr (s2\<lparr>s_ready := r\<rparr>))))"

text \<open>The loop condition \<open>!s_timeouts.empty() && s_timeouts.front().m_waitUntil.value() <= s_ticks\<close>.\<close>

definition SystickHandler_cond :: "state \<Rightarrow> error + bool" where
  "SystickHandler_cond s =
     (case s_timeouts s of
        [] \<Rightarrow> Inr False
      | task # rest \<Rightarrow>
          (case m_waitUntil (tasks s task) of
             None \<Rightarrow> Inl BadOptionalAccess
           | Some d \<Rightarrow> Inr (sint d \<le> sint (s_ticks s))))"

text \<open>Each iteration pops the head of the timeout queue, which makes the loop end.\<close>

lemma SystickHandler_body_shortens:
  "SystickHandler_body s = Inr s' \<Longrightarrow> length (s_timeouts s') < length (s_timeouts s)"
  by (auto simp: SystickHandler_body_def front_def pop_front_def Let_def update_task_def
        setReturnValue_def removeWaiting_def update_condition_def
        split: sum.splits list.splits if_splits)

function SystickHandler_loop :: "bool \<Rightarrow> state \<Rightarrow> error + (bool \<times> state)" where
  "SystickHandler_loop dirty s =
     (case SystickHandler_cond s of
        Inl e \<Rightarrow> Inl e
      | Inr False \<Rightarrow> Inr (dirty, s)
      | Inr True \<Rightarrow>
          (case SystickHandler_body s of
             Inl e \<Rightarrow> Inl e
           | Inr s' \<Rightarrow> SystickHandler_loop True s'))"
  by pat_completeness auto
termination
  by (relation "measure (\<lambda>(dirty, s). length (s_timeouts s))")
     (auto dest: SystickHandler_body_shortens)

text \<open>The result is the value handed to \<open>Hooks::exitSystick\<close> and the new state.\<close>

definition SystickHandler :: "state \<Rightarrow> error + (bool \<times> state)" where
  "SystickHandler s =
     (case SystickHandler_loop False (s\<lparr>s_ticks := s_ticks s + 1\<rparr>) of
        Inl e \<Rightarrow> Inl e
      | Inr (dirty, s1) \<Rightarrow> (if dirty then doSwitch s1 else Inr (False, s1)))"

subsection \<open>Scheduler::start\<close>

definition M4 :: "16 word" where "M4 = 0xc24"
definition M7 :: "16 word" where "M7 = 0xc27"

definition SystickReloadMask :: "32 word" where
  "SystickReloadMask = push_bit 24 1 - 1"

definition enableSystick :: "32 word \<Rightarrow> state \<Rightarrow> error + state" where
  "enableSystick reload s =
     (if assert_fails s (reload \<noteq> 0) then Inl AssertFailed
      else if assert_fails s (reload - 1 \<le> SystickReloadMask) then Inl AssertFailed
      else Inr (s\<lparr>systick_load := Some (reload - 1)\<rparr>))"

definition setPriority :: "32 word \<Rightarrow> IsrPriority \<Rightarrow> state \<Rightarrow> state" where
  "setPriority irq priority s = s\<lparr>scb_shp := (scb_shp s)(irq := priority)\<rparr>"

text \<open>\<open>ratio\<close> is the number of \<open>duration\<close> ticks in one second, 1000. The priority
  grouping, the three handlers and the stack pointers are set in registers outside the
  state.\<close>

definition Scheduler_start :: "pointer \<Rightarrow> state \<Rightarrow> error + (bool \<times> state)" where
  "Scheduler_start idle s =
     (if assert_fails s (cpuid_partno s = M4 \<or> cpuid_partno s = M7) then Inl AssertFailed
      else if assert_fails s (\<not> s_isStarted s) then Inl AssertFailed
      else
        (let s1 = s\<lparr>s_isStarted := True\<rparr>;
             ratio = 1000;
             s2 = s1\<lparr>s_idle := idle\<rparr>;
             s3 = setPriority 11 kServiceCallPriority s2;
             s4 = setPriority 14 kPendSvPriority s3;
             s5 = setPriority 15 kSystickPriority s4
         in
         if assert_fails s5 (coreClock s5 mod ratio = 0) then Inl AssertFailed
         else
           (case enableSystick (coreClock s5 div ratio) s5 of
              Inl e \<Rightarrow> Inl e
            | Inr s6 \<Rightarrow> doSwitch s6)))"

subsection \<open>TaskControlBlock::start, stop, priority\<close>

text \<open>\<open>std::fill(m_stackBase, m_stackBase + m_stackSize, Dummy)\<close>.\<close>

definition fill :: "pointer \<Rightarrow> 32 word \<Rightarrow> 32 word \<Rightarrow> (pointer \<Rightarrow> 32 word) \<Rightarrow> (pointer \<Rightarrow> 32 word)" where
  "fill base n v mem = fold (\<lambda>i m. m(item_offset base (of_nat i) := v)) [0..<unat n] mem"

definition store_word :: "pointer \<Rightarrow> 32 word \<Rightarrow> state \<Rightarrow> state" where
  "store_word a v s = s\<lparr>memory := (memory s)(a := v)\<rparr>"

text \<open>The initial stack: the fill of a debug build, a zero word at the top, below it a
  \<open>StackFrame\<close> (\<open>r0\<close> at item 0, \<open>lr\<close> at 5, \<open>pc\<close> at 6, \<open>psr\<close> at 7) and below
  that a \<open>Context\<close> (\<open>lr\<close> at item 0, \<open>control\<close> at 1), written in the order of the
  source; \<open>m_stackPointer\<close> ends at the context.\<close>

definition initial_stack :: "pointer \<Rightarrow> state \<Rightarrow> state" where
  "initial_stack task s =
     (let base = m_stackBase (tasks s task);
          size = m_stackSize (tasks s task);
          top = item_offset base (size - 1);
          frame = item_offset top (- sizeof_StackFrame);
          ctx = item_offset frame (- sizeof_Context);
          s2 = (if NDEBUG s then s else s\<lparr>memory := fill base size (Dummy s) (memory s)\<rparr>);
          s3 = store_word top 0 s2;
          s4 = store_word (item_offset frame 7) (push_bit 24 1) s3;
          s5 = store_word (item_offset frame 6) (taskStarter s) s4;
          s6 = store_word (item_offset frame 5) (terminateTask s + 2) s5;
          s7 = store_word (item_offset frame 0) task s6;
          s8 = store_word (item_offset ctx 1) 0b10 s7;
          s9 = store_word (item_offset ctx 0) 0xFFFFFFFD s8
      in update_task task (\<lambda>t. t\<lparr>m_stackPointer := ctx\<rparr>) s9)"

definition TaskControlBlock_start :: "pointer \<Rightarrow> nat option \<Rightarrow> string option \<Rightarrow> state \<Rightarrow> error + (bool \<times> state)" where
  "TaskControlBlock_start task entry name s =
     (if m_active (tasks s task) then Inr (False, s)
      else
        (let s1 = update_task task (\<lambda>t. t\<lparr>m_active := True, m_entry := entry, m_name := name\<rparr>) s in
         case addTask task (initial_stack task s1) of
           Inl e \<Rightarrow> Inl e
         | Inr s' \<Rightarrow> Inr (True, s')))"

text \<open>\<open>stop\<close> loads \<open>r0\<close> only; \<open>Terminate\<close> reads no other register.\<close>

definition TaskControlBlock_stop :: "pointer \<Rightarrow> state \<Rightarrow> error + (bool \<times> state)" where
  "TaskControlBlock_stop task s =
     (if \<not> isStarted (tasks s task) then Inr (False, s)
      else
        (case svc Terminate task 0 0 s of
           Inl e \<Rightarrow> Inl e
         | Inr (taskSwitch, s') \<Rightarrow> Inr (True, s')))"

definition TaskControlBlock_priority :: "pointer \<Rightarrow> Priority \<Rightarrow> state \<Rightarrow> error + state" where
  "TaskControlBlock_priority task newPriority s =
     (if newPriority = m_priority (tasks s task) then Inr s
      else updatePriority task newPriority s)"

subsection \<open>ConditionVariable::notify_one, notify_all\<close>

text \<open>With a predicate that has no assertion, \<open>insertWhen\<close> always succeeds: the item is
  placed before the first item of the list against which the predicate holds.\<close>

lemma insertWhen_loop_pure:
  "insertWhen_loop (\<lambda>l r. Inr (p l r)) x xs =
     Inr (takeWhile (\<lambda>y. \<not> p x y) xs @ x # dropWhile (\<lambda>y. \<not> p x y) xs)"
  by (induction xs) auto

lemma insertWhen_pure:
  "insertWhen (\<lambda>l r. Inr (p l r)) x xs =
     Inr (takeWhile (\<lambda>y. \<not> p x y) xs @ x # dropWhile (\<lambda>y. \<not> p x y) xs)"
  by (cases xs) (auto simp: insertWhen_def push_front_def insertWhen_loop_pure)

definition ordered_insert :: "(pointer \<Rightarrow> TaskControlBlock) \<Rightarrow> pointer \<Rightarrow> pointer list \<Rightarrow> pointer list" where
  "ordered_insert ts x xs =
     takeWhile (\<lambda>y. \<not> priorityIsLower ts x y) xs @ x # dropWhile (\<lambda>y. \<not> priorityIsLower ts x y) xs"

lemma insert_by_priority_eq: "insert_by_priority ts x xs = Inr (ordered_insert ts x xs)"
  by (simp add: insert_by_priority_def insertWhen_pure ordered_insert_def)

text \<open>\<open>doSwitch\<close> writes five members of the scheduler and nothing else.\<close>

definition outside_switch :: "state \<Rightarrow> state" where
  "outside_switch s =
     s\<lparr>s_ready := [], s_nextTask := 0, s_currentTask := 0, pendsv := False, s_mayNeedSwitch := False\<rparr>"

lemma doSwitch_next_frame:
  "doSwitch_next s = Inr s' \<Longrightarrow> outside_switch s' = outside_switch s"
  unfolding doSwitch_next_def outside_switch_def
  by (auto simp add: insert_by_priority_eq split: if_splits)

lemma doSwitch_current_frame:
  "doSwitch_current s = Inr s' \<Longrightarrow> outside_switch s' = outside_switch s"
  unfolding doSwitch_current_def outside_switch_def
  by (auto simp add: insert_by_priority_eq split: if_splits)

lemma doSwitch_pick_frame:
  "doSwitch_pick c s = Inr (b, s') \<Longrightarrow> outside_switch s' = outside_switch s"
  unfolding doSwitch_pick_def outside_switch_def
  by (cases "s_ready s")
     (auto simp add: empty_def front_def pop_front_def triggerPendSv_def Let_def split: if_splits)

lemma doSwitch_frame:
  "doSwitch s = Inr (b, s') \<Longrightarrow> outside_switch s' = outside_switch s"
  unfolding doSwitch_def
  apply (simp split: if_splits sum.splits add: Let_def)
   apply (auto simp add: outside_switch_def)[1]
  apply (auto dest!: doSwitch_next_frame doSwitch_current_frame doSwitch_pick_frame)
  done






definition mutex_priority_ok :: "pointer \<Rightarrow> state \<Rightarrow> bool" where
  "mutex_priority_ok condition s =
     (maskedValue kPreemptionBits (value_or (m_isrPriority (cv_mutex (conditions s condition))) kServiceCallPriority)
        \<ge> maskedValue kPreemptionBits kServiceCallPriority)"








subsection \<open>Scheduler::now, ConditionVariable::wait, wait_for, wait_until, sleep_for, sleep_until\<close>

definition now :: "state \<Rightarrow> error + time_point" where
  "now s =
     (if assert_fails s
           (s_isStarted s \<and>
            (case currentPriority s of
               Inl e \<Rightarrow> False
             | Inr c \<Rightarrow> value_or c kLowestPriority \<ge> kSystickPriority))
      then Inl AssertFailed
      else Inr (s_ticks s))"

text \<open>The waiting functions end with the \<open>svc\<close> instruction; the status they return is
  read from \<open>r0\<close> when the task runs again, which is the slot \<open>returnValueSlot\<close>. The
  result here is the state the service call leaves.\<close>

definition wait :: "pointer \<Rightarrow> state \<Rightarrow> error + (bool \<times> state)" where
  "wait condition s =
     (if assert_fails s (ipsr s = 0) then Inl AssertFailed
      else if assert_fails s (mutex_priority_ok condition s) then Inl AssertFailed
      else svc Wait condition (- 1) 0 s)"

definition wait_mutex :: "pointer \<Rightarrow> pointer \<Rightarrow> state \<Rightarrow> error + (bool \<times> state)" where
  "wait_mutex condition mutex s =
     (if assert_fails s (ipsr s = 0) then Inl AssertFailed
      else if assert_fails s (mutex_priority_ok condition s) then Inl AssertFailed
      else svc Wait condition (- 1) mutex s)"

definition wait_for :: "pointer \<Rightarrow> duration \<Rightarrow> state \<Rightarrow> error + (bool \<times> state)" where
  "wait_for condition tmo s =
     (if assert_fails s (ipsr s = 0) then Inl AssertFailed
      else if assert_fails s (mutex_priority_ok condition s) then Inl AssertFailed
      else svc Wait condition tmo 0 s)"

definition wait_for_mutex :: "pointer \<Rightarrow> pointer \<Rightarrow> duration \<Rightarrow> state \<Rightarrow> error + (bool \<times> state)" where
  "wait_for_mutex condition mutex tmo s =
     (if assert_fails s (ipsr s = 0) then Inl AssertFailed
      else if assert_fails s (mutex_priority_ok condition s) then Inl AssertFailed
      else svc Wait condition tmo mutex s)"

definition wait_until :: "pointer \<Rightarrow> time_point \<Rightarrow> state \<Rightarrow> error + (bool \<times> state)" where
  "wait_until condition timeout_time s =
     (case now s of
        Inl e \<Rightarrow> Inl e
      | Inr n \<Rightarrow> wait_for condition (timeout_time - n) s)"

definition wait_until_mutex :: "pointer \<Rightarrow> pointer \<Rightarrow> time_point \<Rightarrow> state \<Rightarrow> error + (bool \<times> state)" where
  "wait_until_mutex condition mutex timeout_time s =
     (case now s of
        Inl e \<Rightarrow> Inl e
      | Inr n \<Rightarrow> wait_for_mutex condition mutex (timeout_time - n) s)"

definition sleep_for :: "duration \<Rightarrow> state \<Rightarrow> error + (bool \<times> state)" where
  "sleep_for t s = svc Sleep t 0 0 s"

text \<open>\<open>1h\<close> is 3600000 ticks of \<open>duration\<close>.\<close>

definition sleep_until :: "time_point \<Rightarrow> state \<Rightarrow> error + (bool \<times> state)" where
  "sleep_until tp s =
     (if assert_fails s (case now s of Inl e \<Rightarrow> False | Inr n \<Rightarrow> sint (tp - n) < 3600000)
      then Inl AssertFailed
      else
        (case now s of
           Inl e \<Rightarrow> Inl e
         | Inr n \<Rightarrow> sleep_for (tp - n) s))"

subsection \<open>Initial values\<close>

text \<open>The default member initialisers of the classes and the initialisers of the static
  members of \<open>Scheduler\<close>. \<open>boot\<close> is the state after static initialisation on a core
  out of reset (thread mode, no masking, nothing pending), for a given build, part
  number and core clock; every address holds a task, a condition variable and a mutex
  in their constructed state.\<close>

definition TaskControlBlock_new :: "pointer \<Rightarrow> 32 word \<Rightarrow> TaskControlBlock" where
  "TaskControlBlock_new stackBase stackSize =
     \<lparr>m_stackBase = stackBase, m_stackSize = stackSize, m_active = False, m_stackPointer = 0,
      m_priority = 0xFF, m_lastStarted = Startup, m_waitUntil = None, m_name = None,
      m_entry = None, m_waiting = 0, m_mutex = 0\<rparr>"

definition PriorityMutex_new :: "IsrPriority option \<Rightarrow> PriorityMutex" where
  "PriorityMutex_new priority =
     \<lparr>m_locked = False, m_previousLock = 0, m_criticalSection = False, m_isrPriority = priority\<rparr>"

definition ConditionVariable_new :: "IsrPriority option \<Rightarrow> ConditionVariable" where
  "ConditionVariable_new priority = \<lparr>cv_mutex = PriorityMutex_new priority, m_waitingList = []\<rparr>"

definition boot :: "bool \<Rightarrow> 16 word \<Rightarrow> 32 word \<Rightarrow> state" where
  "boot ndebug partno clock =
     \<lparr>NDEBUG = ndebug, Dummy = 0xDEADBEEF, taskStarter = 0x08000100, terminateTask = 0x08000200,
      cpuid_partno = partno, coreClock = clock,
      basepri = 0, primask = False, ipsr = 0, pendsv = False,
      scb_shp = (\<lambda>irq. 0), nvic_ip = (\<lambda>irq. 0), systick_load = None,
      memory = (\<lambda>a. 0),
      s_isStarted = False, s_ticks = Startup, s_allTasks = [], s_timeouts = [], s_ready = [],
      s_idling = False, s_mayNeedSwitch = False, s_idle = 0,
      s_previousTask = 0, s_currentTask = 0, s_nextTask = 0, s_criticalSection = False,
      tasks = (\<lambda>a. TaskControlBlock_new (a + 0x100) 36),
      conditions = (\<lambda>a. ConditionVariable_new None),
      mutexes = (\<lambda>a. PriorityMutex_new None),
      idle_stackPointer = (\<lambda>a. 0)\<rparr>"

subsection \<open>The ordering of the queues\<close>

text \<open>A list is sorted by priority when no item precedes, in the sense of
  \<open>priorityIsLower\<close>, an item that stands before it.\<close>

definition sorted_by_priority :: "(pointer \<Rightarrow> TaskControlBlock) \<Rightarrow> pointer list \<Rightarrow> bool" where
  "sorted_by_priority ts xs = sorted_wrt (\<lambda>a b. \<not> priorityIsLower ts b a) xs"

subsection \<open>The algorithm of \<open>do_switch\<close> in the words of the specification\<close>

text \<open>
  If in critical section: record \<open>may_need_switch\<close>, return false. Else: if \<open>next_task\<close>
  is non-null, re-insert it into the ready queue (ordered) and clear it; if
  \<open>current_task\<close> is non-null, re-insert it and clear it; if the ready queue is empty,
  request the pending-switch exception and return true; otherwise pop the head into
  \<open>next_task\<close>, and if it equals the old \<open>current_task\<close> restore it as
  \<open>current_task\<close>, clear \<open>next_task\<close> and return false, else request the pending-switch
  exception and return true.
\<close>

definition spec_do_switch :: "state \<Rightarrow> bool \<times> state" where
  "spec_do_switch s =
     (if s_criticalSection s then (False, s\<lparr>s_mayNeedSwitch := True\<rparr>)
      else
        (let old_current = s_currentTask s;
             s1 = (if s_nextTask s \<noteq> 0
                   then s\<lparr>s_ready := ordered_insert (tasks s) (s_nextTask s) (s_ready s), s_nextTask := 0\<rparr>
                   else s);
             s2 = (if s_currentTask s1 \<noteq> 0
                   then s1\<lparr>s_ready := ordered_insert (tasks s1) (s_currentTask s1) (s_ready s1),
                           s_currentTask := 0\<rparr>
                   else s1)
         in
         case s_ready s2 of
           [] \<Rightarrow> (True, s2\<lparr>pendsv := True\<rparr>)
         | head # rest \<Rightarrow>
             (let s3 = s2\<lparr>s_nextTask := head, s_ready := rest\<rparr> in
              if s_nextTask s3 = old_current
              then (False, s3\<lparr>s_currentTask := head, s_nextTask := 0\<rparr>)
              else (True, s3\<lparr>pendsv := True\<rparr>))))"

subsection \<open>Example states\<close>

text \<open>A debug build after \<open>Scheduler::start\<close>, with three started tasks: task 1 of
  priority \<open>0x10\<close> is running, tasks 2 (priority \<open>0x80\<close>) and 3 (priority \<open>0x90\<close>) are
  ready.\<close>

definition started_task :: "pointer \<Rightarrow> Priority \<Rightarrow> TaskControlBlock" where
  "started_task a p = (TaskControlBlock_new (a + 0x100) 36)\<lparr>m_active := True, m_priority := p\<rparr>"

definition three_tasks :: state where
  "three_tasks =
     (boot False M4 168000000)
       \<lparr>s_isStarted := True, s_idle := 9,
        s_allTasks := [3, 2, 1], s_ready := [2, 3], s_currentTask := 1, s_previousTask := 1,
        tasks := (\<lambda>a. if a = 1 then started_task 1 0x10
                      else if a = 2 then started_task 2 0x80
                      else if a = 3 then started_task 3 0x90
                      else TaskControlBlock_new (a + 0x100) 36)\<rparr>"

text \<open>The ready queue after the two re-insertions.\<close>

definition reinserted :: "state \<Rightarrow> pointer list" where
  "reinserted s =
     (let r1 = (if s_nextTask s \<noteq> 0 then ordered_insert (tasks s) (s_nextTask s) (s_ready s) else s_ready s)
      in if s_currentTask s \<noteq> 0 then ordered_insert (tasks s) (s_currentTask s) r1 else r1)"

text \<open>The state in which \<open>Scheduler::start\<close> calls \<open>doSwitch\<close>.\<close>

definition start_prepared :: "pointer \<Rightarrow> state \<Rightarrow> state" where
  "start_prepared idle s =
     (setPriority 15 kSystickPriority (setPriority 14 kPendSvPriority (setPriority 11 kServiceCallPriority
        (s\<lparr>s_isStarted := True, s_idle := idle\<rparr>))))
       \<lparr>systick_load := Some (coreClock s div 1000 - 1)\<rparr>"

text \<open>The order of the timeout queue: \<open>wakeupAfter\<close> without its assertion.\<close>

definition wakes_before :: "(pointer \<Rightarrow> TaskControlBlock) \<Rightarrow> pointer \<Rightarrow> pointer \<Rightarrow> bool" where
  "wakes_before ts left right =
     (sint (value_or (m_waitUntil (ts left)) Startup) < sint (value_or (m_waitUntil (ts right)) Startup))"

definition insert_by_deadline :: "(pointer \<Rightarrow> TaskControlBlock) \<Rightarrow> pointer \<Rightarrow> pointer list \<Rightarrow> pointer list" where
  "insert_by_deadline ts x xs =
     takeWhile (\<lambda>y. \<not> wakes_before ts x y) xs @ x # dropWhile (\<lambda>y. \<not> wakes_before ts x y) xs"

definition sorted_by_deadline :: "(pointer \<Rightarrow> TaskControlBlock) \<Rightarrow> pointer list \<Rightarrow> bool" where
  "sorted_by_deadline ts xs = sorted_wrt (\<lambda>a b. \<not> wakes_before ts b a) xs"

text \<open>The state in which \<open>Sleep\<close> calls \<open>doSwitch\<close>: the current task has its deadline, is
  in the timeout queue, and is no longer current.\<close>

definition Sleep_queued :: "StackFrame \<Rightarrow> state \<Rightarrow> state" where
  "Sleep_queued frame s =
     (let s1 = update_task (s_currentTask s) (\<lambda>t. t\<lparr>m_waitUntil := Some (s_ticks s + (r0 frame + 1))\<rparr>) s
      in s1\<lparr>s_timeouts := insert_by_deadline (tasks s1) (s_currentTask s) (s_timeouts s), s_currentTask := 0\<rparr>)"

text \<open>The promotion of one drained task, in the words of the specification: clear
  \<open>wait_until\<close>; if the task was also waiting on a condition variable, remove it from the
  waiting list and write \<open>timeout\<close> as its return value; insert it into the ready queue.\<close>

definition promote :: "pointer \<Rightarrow> state \<Rightarrow> state" where
  "promote task s =
     (let s1 = update_task task (\<lambda>t. t\<lparr>m_waitUntil := None\<rparr>) s;
          s2 = (if m_waiting (tasks s1 task) \<noteq> 0
                then setReturnValue task timeout (removeWaiting (m_waiting (tasks s1 task)) task s1)
                else s1)
      in s2\<lparr>s_ready := ordered_insert (tasks s2) task (s_ready s2)\<rparr>)"

text \<open>A deadline that has been reached.\<close>

definition expired :: "state \<Rightarrow> pointer \<Rightarrow> bool" where
  "expired s task =
     (case m_waitUntil (tasks s task) of
        None \<Rightarrow> False
      | Some d \<Rightarrow> sint d \<le> sint (s_ticks s))"

text \<open>The tick in the words of the specification: advance the clock, drain the expired
  head of the timeout queue, promote each drained task, and call \<open>do_switch\<close> if any task
  was promoted.\<close>

definition drained :: "state \<Rightarrow> pointer list" where
  "drained s = takeWhile (expired s) (s_timeouts s)"

definition spec_drain :: "state \<Rightarrow> state" where
  "spec_drain s = fold promote (drained s) (s\<lparr>s_timeouts := dropWhile (expired s) (s_timeouts s)\<rparr>)"

definition spec_tick :: "state \<Rightarrow> error + (bool \<times> state)" where
  "spec_tick s =
     (let s1 = s\<lparr>s_ticks := s_ticks s + 1\<rparr> in
      if drained s1 \<noteq> [] then doSwitch (spec_drain s1) else Inr (False, spec_drain s1))"


text \<open>The state after the clock has advanced.\<close>

definition ticked :: "state \<Rightarrow> state" where
  "ticked s = s\<lparr>s_ticks := s_ticks s + 1\<rparr>"


subsection \<open>The states on which \<open>wakeUp\<close> and \<open>Wait\<close> call \<open>doSwitch\<close>\<close>

text \<open>The state in which \<open>wakeUp\<close> calls \<open>doSwitch\<close>: under the kernel mask, the task is
  off the waiting list, \<open>waiting_on\<close> is cleared, \<open>no_timeout\<close> is written, the timeout entry
  is cancelled, and the task is in the ready queue.\<close>

definition woken :: "pointer \<Rightarrow> pointer \<Rightarrow> state \<Rightarrow> state" where
  "woken task condition s =
     (let s1 = s\<lparr>basepri := kServiceCallPriority\<rparr>;
          s2 = removeWaiting condition task s1;
          s3 = update_task task (\<lambda>t. t\<lparr>m_waiting := 0\<rparr>) s2;
          s4 = setReturnValue task no_timeout s3;
          s5 = (if has_value (m_waitUntil (tasks s4 task))
                then (update_task task (\<lambda>t. t\<lparr>m_waitUntil := None\<rparr>) s4)
                       \<lparr>s_timeouts := erase task (s_timeouts s4)\<rparr>
                else s4)
      in s5\<lparr>s_ready := ordered_insert (tasks s5) task (s_ready s5)\<rparr>)"

text \<open>The state in which \<open>Wait\<close> without a mutex calls \<open>doSwitch\<close>: the deadline is set and
  queued when the timeout is not negative, the current task is on the waiting list of the
  condition variable, \<open>waiting_on\<close> is set, and no task is current.\<close>

definition Wait_queued :: "pointer \<Rightarrow> duration \<Rightarrow> state \<Rightarrow> state" where
  "Wait_queued condition tmo s =
     (let s1 = (if 0 \<le> sint tmo then
                  (let s0 = update_task (s_currentTask s) (\<lambda>t. t\<lparr>m_waitUntil := Some (s_ticks s + tmo)\<rparr>) s
                   in s0\<lparr>s_timeouts := insert_by_deadline (tasks s0) (s_currentTask s) (s_timeouts s)\<rparr>)
                else s);
          s3 = update_condition condition
                 (\<lambda>c. c\<lparr>m_waitingList := ordered_insert (tasks s1) (s_currentTask s) (m_waitingList c)\<rparr>) s1
      in (update_task (s_currentTask s) (\<lambda>t. t\<lparr>m_waiting := condition\<rparr>) s3)\<lparr>s_currentTask := 0\<rparr>)"

text \<open>The tick handler, run \<open>n\<close> times.\<close>

fun SystickHandler_times :: "nat \<Rightarrow> state \<Rightarrow> error + state" where
  "SystickHandler_times 0 s = Inr s"
| "SystickHandler_times (Suc n) s =
     (case SystickHandler s of
        Inl e \<Rightarrow> Inl e
      | Inr (b, s') \<Rightarrow> SystickHandler_times n s')"

text \<open>A task that waits on a condition variable and has no deadline.\<close>

definition waits_without_deadline :: "state \<Rightarrow> pointer \<Rightarrow> pointer \<Rightarrow> bool" where
  "waits_without_deadline s task condition =
     (task \<in> set (m_waitingList (conditions s condition)) \<and> m_waiting (tasks s task) = condition \<and>
      m_waitUntil (tasks s task) = None \<and> task \<notin> set (s_timeouts s))"





text \<open>A debug build in which task 1 (priority \<open>0x10\<close>) runs, task 2 (priority \<open>0x80\<close>) is
  ready, and tasks 3 (priority \<open>0x50\<close>) and 4 (priority \<open>0x90\<close>) wait on the condition
  variable at address 7, task 3 until tick 1: the state after task 3 has called
  \<open>wait_for(1 ms)\<close> and task 4 has called \<open>wait()\<close>.\<close>

definition timed_waiter :: state where
  "timed_waiter =
     (boot False M4 168000000)
       \<lparr>s_isStarted := True, s_idle := 9,
        s_allTasks := [4, 3, 2, 1], s_ready := [2], s_timeouts := [3],
        s_currentTask := 1, s_previousTask := 1,
        tasks := (\<lambda>a. if a = 1 then (started_task 1 0x10)\<lparr>m_stackPointer := 0x20001000\<rparr>
                      else if a = 2 then (started_task 2 0x80)\<lparr>m_stackPointer := 0x20002000\<rparr>
                      else if a = 3 then (started_task 3 0x50)
                             \<lparr>m_stackPointer := 0x20003000, m_waitUntil := Some 1, m_waiting := 7\<rparr>
                      else if a = 4 then (started_task 4 0x90)
                             \<lparr>m_stackPointer := 0x20004000, m_waiting := 7\<rparr>
                      else TaskControlBlock_new (a + 0x100) 36),
        conditions := (\<lambda>a. if a = 7 then (ConditionVariable_new None)\<lparr>m_waitingList := [3, 4]\<rparr>
                           else ConditionVariable_new None)\<rparr>"

subsection \<open>EmbeddedList on its links\<close>

text \<open>The nodes and the list as the source has them: a node holds \<open>m_previous\<close> and
  \<open>m_next\<close>, a list holds \<open>m_first\<close> and \<open>m_size\<close>, and \<open>links\<close> gives the node of one kind
  (\<open>Waiting\<close>, \<open>Timeout\<close> or \<open>Handle\<close>) of every task. \<open>empty\<close> asserts that \<open>m_first\<close> is null
  exactly when \<open>m_size\<close> is zero. \<open>erase\<close> reads the links of the item and never looks for
  it in the list; the iterator it returns is not used by its callers.\<close>

record EmbeddedNode =
  m_previous :: pointer
  m_next :: pointer

record EmbeddedList =
  m_first :: pointer
  m_size :: "32 word"

type_synonym links = "pointer \<Rightarrow> EmbeddedNode"

definition EmbeddedList_empty :: "bool \<Rightarrow> EmbeddedList \<Rightarrow> error + bool" where
  "EmbeddedList_empty ndebug l =
     (if \<not> ndebug \<and> \<not> ((m_first l = 0) \<noteq> (m_size l \<noteq> 0)) then Inl AssertFailed
      else Inr (m_first l = 0))"

definition EmbeddedList_erase ::
    "bool \<Rightarrow> pointer \<Rightarrow> EmbeddedList \<Rightarrow> links \<Rightarrow> error + (EmbeddedList \<times> links)" where
  "EmbeddedList_erase ndebug item l n =
     (case EmbeddedList_empty ndebug l of
        Inl e \<Rightarrow> Inl e
      | Inr True \<Rightarrow> Inr (l, n)
      | Inr False \<Rightarrow>
          (if m_previous (n item) = 0 then
             (if m_next (n item) = 0 then
                (if m_first l = item then Inr (l\<lparr>m_first := 0, m_size := m_size l - 1\<rparr>, n)
                 else Inr (l, n))
              else
                (let l1 = l\<lparr>m_first := m_next (n item)\<rparr>;
                     n1 = n(item := (n item)\<lparr>m_next := 0\<rparr>);
                     n2 = n1(m_first l1 := (n1 (m_first l1))\<lparr>m_previous := 0\<rparr>)
                 in Inr (l1\<lparr>m_size := m_size l1 - 1\<rparr>, n2)))
           else
             (let next = m_next (n item);
                  n1 = n(m_previous (n item) := (n (m_previous (n item)))\<lparr>m_next := next\<rparr>);
                  n2 = (if next \<noteq> 0
                        then n1(next := (n1 next)\<lparr>m_previous := m_previous (n1 item)\<rparr>)
                        else n1);
                  n3 = n2(item := \<lparr>m_previous = 0, m_next = 0\<rparr>)
              in Inr (l\<lparr>m_size := m_size l - 1\<rparr>, n3))))"

text \<open>The items reached from \<open>p\<close> along \<open>m_next\<close>, at most \<open>k\<close> of them.\<close>

fun chain :: "links \<Rightarrow> nat \<Rightarrow> pointer \<Rightarrow> pointer list" where
  "chain n 0 p = []"
| "chain n (Suc k) p = (if p = 0 then [] else p # chain n k (m_next (n p)))"

text \<open>A sequence \<open>xs\<close> is linked from \<open>prev\<close> to \<open>nxt\<close> when its items are not null, each has
  its predecessor in \<open>m_previous\<close> (\<open>prev\<close> for the first) and its successor in \<open>m_next\<close> (\<open>nxt\<close>
  for the last). A list and the nodes represent the sequence when \<open>m_first\<close> is its first
  item, \<open>m_size\<close> its length, and it is linked from null to null.\<close>

fun linked :: "links \<Rightarrow> pointer \<Rightarrow> pointer list \<Rightarrow> pointer \<Rightarrow> bool" where
  "linked n prev [] nxt = True"
| "linked n prev (x # xs) nxt =
     (x \<noteq> 0 \<and> m_previous (n x) = prev \<and> m_next (n x) = (case xs of [] \<Rightarrow> nxt | y # ys \<Rightarrow> y) \<and>
      linked n x xs nxt)"

definition represents :: "EmbeddedList \<Rightarrow> links \<Rightarrow> pointer list \<Rightarrow> bool" where
  "represents l n xs =
     (distinct xs \<and> length xs < 2 ^ 32 \<and> m_first l = (case xs of [] \<Rightarrow> 0 | x # rest \<Rightarrow> x) \<and>
      m_size l = of_nat (length xs) \<and> linked n 0 xs 0)"

text \<open>The \<open>Waiting\<close> nodes after task 3, which waited on a condition variable with a
  timeout, has been moved to the ready queue by the tick handler: the ready queue is
  \<open>[3, 2]\<close>, and task 4 is alone on the waiting list of the condition variable.\<close>

definition timed_out_ready :: links where
  "timed_out_ready =
     (\<lambda>p. if p = 3 then \<lparr>m_previous = 0, m_next = 2\<rparr>
          else if p = 2 then \<lparr>m_previous = 3, m_next = 0\<rparr>
          else \<lparr>m_previous = 0, m_next = 0\<rparr>)"

section \<open>Properties\<close>

subsection \<open>PriorityMutex::unlock\<close>

text \<open>
  C9, as stated: \<open>unlock()\<close> on a mutex that has not been locked is detected by a check
  that halts a debug build. It is not: \<open>unlock\<close> begins with \<open>if (!m_locked) return;\<close>. On
  a freshly constructed mutex in a debug build the call returns and changes nothing.
\<close>

theorem unlock_unlocked_counterexample:
  "\<not> (\<forall>m s. \<not> NDEBUG s \<and> \<not> m_locked m \<longrightarrow> unlock m s = Inl AssertFailed)"
proof
  assume a: "\<forall>m s. \<not> NDEBUG s \<and> \<not> m_locked m \<longrightarrow> unlock m s = Inl AssertFailed"
  have "unlock (PriorityMutex_new None) (boot False M4 168000000) = Inl AssertFailed"
    by (rule a [rule_format]) (simp add: boot_def PriorityMutex_new_def)
  then show False
    by (simp add: unlock_def PriorityMutex_new_def)
qed

text \<open>
  C9, amended: \<open>unlock()\<close> on a mutex whose \<open>m_locked\<close> flag is clear returns at once, in
  every build, with the mutex and the state unchanged. The checks that halt a debug build
  run only when the flag is set: a mutex of priority 0 requires \<open>PRIMASK\<close> to be set, a
  mutex of a priority above 0 requires the masked \<open>BASEPRI\<close> to equal the masked priority
  of the mutex, and a mutex without priority requires thread mode.
\<close>

theorem unlock_checks:
  "(\<not> m_locked m \<longrightarrow> unlock m s = Inr (m, s)) \<and>
   (m_locked m \<and> \<not> NDEBUG s \<and> m_isrPriority m = Some 0 \<and> \<not> primask s
      \<longrightarrow> unlock m s = Inl AssertFailed) \<and>
   (m_locked m \<and> \<not> NDEBUG s \<and> m_isrPriority m = Some p \<and> p \<noteq> 0 \<and>
    maskedValue kPreemptionBits (basepri s) \<noteq> maskedValue kPreemptionBits p
      \<longrightarrow> unlock m s = Inl AssertFailed) \<and>
   (m_locked m \<and> \<not> NDEBUG s \<and> m_isrPriority m = None \<and> ipsr s \<noteq> 0
      \<longrightarrow> unlock m s = Inl AssertFailed)"
  by (simp add: unlock_def assert_fails_def setBasepri_def)

theorem unlock_checks_witness:
  "unlock (PriorityMutex_new (Some 0x40)) (boot False M4 168000000)
     = Inr (PriorityMutex_new (Some 0x40), boot False M4 168000000) \<and>
   unlock ((PriorityMutex_new (Some 0))\<lparr>m_locked := True\<rparr>) (boot False M4 168000000)
     = Inl AssertFailed \<and>
   unlock ((PriorityMutex_new (Some 0x40))\<lparr>m_locked := True\<rparr>) (boot False M4 168000000)
     = Inl AssertFailed \<and>
   unlock ((PriorityMutex_new None)\<lparr>m_locked := True\<rparr>) ((boot False M4 168000000)\<lparr>ipsr := 15\<rparr>)
     = Inl AssertFailed"
  using unlock_checks [of "PriorityMutex_new (Some 0x40)" "boot False M4 168000000" 0]
    unlock_checks [of "(PriorityMutex_new (Some 0))\<lparr>m_locked := True\<rparr>" "boot False M4 168000000" 0]
    unlock_checks [of "(PriorityMutex_new (Some 0x40))\<lparr>m_locked := True\<rparr>" "boot False M4 168000000" "0x40"]
    unlock_checks [of "(PriorityMutex_new None)\<lparr>m_locked := True\<rparr>" "(boot False M4 168000000)\<lparr>ipsr := 15\<rparr>" 0]
  by (simp add: PriorityMutex_new_def boot_def maskedValue_def kPreemptionBits_def kMaxPreemptionBits_def)

subsection \<open>Ordered insertion\<close>

lemma ordered_insert_simps:
  "ordered_insert ts x [] = [x]"
  "ordered_insert ts x (y # ys) =
     (if priorityIsLower ts x y then x # y # ys else y # ordered_insert ts x ys)"
  by (simp_all add: ordered_insert_def)

lemma set_ordered_insert: "set (ordered_insert ts x xs) = insert x (set xs)"
  by (induction xs) (auto simp: ordered_insert_simps)

lemma priorityIsLower_asym: "priorityIsLower ts a b \<Longrightarrow> \<not> priorityIsLower ts b a"
  by (auto simp: priorityIsLower_def split: if_splits)

lemma priorityIsLower_trans:
  "priorityIsLower ts a b \<Longrightarrow> priorityIsLower ts b c \<Longrightarrow> priorityIsLower ts a c"
  by (auto simp: priorityIsLower_def split: if_splits)

lemma sorted_ordered_insert:
  "sorted_by_priority ts xs \<Longrightarrow> sorted_by_priority ts (ordered_insert ts x xs)"
proof (induction xs)
  case Nil
  then show ?case by (simp add: sorted_by_priority_def ordered_insert_simps)
next
  case (Cons y ys)
  show ?case
  proof (cases "priorityIsLower ts x y")
    case True
    have "\<not> priorityIsLower ts z x" if "z \<in> set (y # ys)" for z
    proof
      assume zx: "priorityIsLower ts z x"
      then have zy: "priorityIsLower ts z y" using True by (rule priorityIsLower_trans)
      from that Cons.prems zy show False
        by (auto simp: sorted_by_priority_def dest: priorityIsLower_asym)
    qed
    with True Cons.prems show ?thesis
      by (simp add: sorted_by_priority_def ordered_insert_simps)
  next
    case False
    with Cons show ?thesis
      by (auto simp: sorted_by_priority_def ordered_insert_simps set_ordered_insert)
  qed
qed

lemma sorted_by_priority_tl: "sorted_by_priority ts (x # xs) \<Longrightarrow> sorted_by_priority ts xs"
  by (simp add: sorted_by_priority_def)

subsection \<open>Scheduler::doSwitch\<close>

lemma doSwitch_next_eq:
  "NDEBUG s \<or> s_nextTask s = 0 \<or> s_currentTask s \<noteq> s_nextTask s \<Longrightarrow>
   doSwitch_next s =
     Inr (if s_nextTask s \<noteq> 0
          then s\<lparr>s_ready := ordered_insert (tasks s) (s_nextTask s) (s_ready s), s_nextTask := 0\<rparr>
          else s)"
  by (auto simp: doSwitch_next_def assert_fails_def insert_by_priority_eq)

lemma doSwitch_current_eq:
  "doSwitch_current s =
     Inr (if s_currentTask s \<noteq> 0
          then s\<lparr>s_ready := ordered_insert (tasks s) (s_currentTask s) (s_ready s), s_currentTask := 0\<rparr>
          else s)"
  by (auto simp: doSwitch_current_def insert_by_priority_eq)

lemma doSwitch_pick_eq:
  "doSwitch_pick c s =
     Inr (case s_ready s of
            [] \<Rightarrow> (True, s\<lparr>pendsv := True\<rparr>)
          | head # rest \<Rightarrow>
              (let s3 = s\<lparr>s_nextTask := head, s_ready := rest\<rparr> in
               if s_nextTask s3 = c
               then (False, s3\<lparr>s_currentTask := head, s_nextTask := 0\<rparr>)
               else (True, s3\<lparr>pendsv := True\<rparr>)))"
  by (cases "s_ready s")
     (simp_all add: doSwitch_pick_def empty_def front_def pop_front_def triggerPendSv_def Let_def)

text \<open>The assertions of \<open>doSwitch\<close> hold, or the build has none.\<close>

definition doSwitch_pre :: "state \<Rightarrow> bool" where
  "doSwitch_pre s =
     (NDEBUG s \<or>
      (s_isStarted s \<and> (s_criticalSection s \<longrightarrow> s_currentTask s \<noteq> 0) \<and>
       (\<not> s_criticalSection s \<and> s_nextTask s \<noteq> 0 \<longrightarrow> s_currentTask s \<noteq> s_nextTask s)))"

lemma doSwitch_refines:
  assumes "doSwitch_pre s"
  shows "doSwitch s = Inr (spec_do_switch s)"
proof (cases "s_criticalSection s")
  case True
  with assms show ?thesis
    by (auto simp: doSwitch_def spec_do_switch_def assert_fails_def doSwitch_pre_def)
next
  case False
  have a: "\<not> assert_fails s (s_isStarted s)"
    "\<not> assert_fails s (s_currentTask s \<noteq> 0 \<or> s_criticalSection s = False)"
    using assms False by (auto simp: assert_fails_def doSwitch_pre_def)
  have n: "NDEBUG s \<or> s_nextTask s = 0 \<or> s_currentTask s \<noteq> s_nextTask s"
    using assms False by (auto simp: doSwitch_pre_def)
  have cur: "s_currentTask (if s_nextTask s \<noteq> 0
                   then s\<lparr>s_ready := ordered_insert (tasks s) (s_nextTask s) (s_ready s), s_nextTask := 0\<rparr>
                   else s) = s_currentTask s" by simp
  show ?thesis
    unfolding doSwitch_def spec_do_switch_def
    using False a
    by (simp only: doSwitch_next_eq [OF n] doSwitch_current_eq doSwitch_pick_eq cur
          if_False sum.case Let_def)
qed

lemma spec_do_switch_eq:
  assumes "\<not> s_criticalSection s"
  shows "spec_do_switch s =
     (case reinserted s of
        [] \<Rightarrow> (True, s\<lparr>s_ready := [], s_nextTask := 0, s_currentTask := 0, pendsv := True\<rparr>)
      | head # rest \<Rightarrow>
          if head = s_currentTask s
          then (False, s\<lparr>s_ready := rest, s_nextTask := 0, s_currentTask := head\<rparr>)
          else (True, s\<lparr>s_ready := rest, s_nextTask := head, s_currentTask := 0, pendsv := True\<rparr>))"
proof (cases "s_nextTask s = 0")
  case n: True
  show ?thesis
  proof (cases "s_currentTask s = 0")
    case True
    with n assms show ?thesis
      by (cases "s_ready s") (simp_all add: spec_do_switch_def reinserted_def)
  next
    case False
    with n assms show ?thesis
      by (cases "ordered_insert (tasks s) (s_currentTask s) (s_ready s)")
         (simp_all add: spec_do_switch_def reinserted_def)
  qed
next
  case n: False
  show ?thesis
  proof (cases "s_currentTask s = 0")
    case True
    with n assms show ?thesis
      by (cases "ordered_insert (tasks s) (s_nextTask s) (s_ready s)")
         (simp_all add: spec_do_switch_def reinserted_def)
  next
    case False
    with n assms show ?thesis
      by (cases "ordered_insert (tasks s) (s_currentTask s) (ordered_insert (tasks s) (s_nextTask s) (s_ready s))")
         (simp_all add: spec_do_switch_def reinserted_def)
  qed
qed

lemma sorted_reinserted:
  "sorted_by_priority (tasks s) (s_ready s) \<Longrightarrow> sorted_by_priority (tasks s) (reinserted s)"
  by (simp add: reinserted_def Let_def sorted_ordered_insert)

lemma spec_do_switch_sorted:
  assumes "sorted_by_priority (tasks s) (s_ready s)"
  shows "sorted_by_priority (tasks (snd (spec_do_switch s))) (s_ready (snd (spec_do_switch s)))"
proof (cases "s_criticalSection s")
  case True
  with assms show ?thesis by (simp add: spec_do_switch_def)
next
  case False
  show ?thesis
  proof (cases "reinserted s")
    case Nil
    with False show ?thesis by (simp add: spec_do_switch_eq sorted_by_priority_def)
  next
    case (Cons h rest)
    have "sorted_by_priority (tasks s) rest"
      using sorted_reinserted [OF assms] Cons by (simp add: sorted_by_priority_def)
    with False Cons show ?thesis by (simp add: spec_do_switch_eq)
  qed
qed

text \<open>
  C1: \<open>doSwitch\<close> follows the specified algorithm. Under the preconditions of the
  specification (the scheduler is started; \<open>current_task\<close> is null only outside a critical
  section) and with \<open>next_task\<close>, when set, different from \<open>current_task\<close>, the function
  returns the result of \<open>spec_do_switch\<close>, in both builds. Inside a critical section it
  only records \<open>may_need_switch\<close> and returns false. Otherwise it re-inserts \<open>next_task\<close>
  and then \<open>current_task\<close> where the comparator places them and clears them; when the
  resulting queue is empty it requests PendSV and returns true; when its head is the old
  current task it restores it as \<open>current_task\<close>, leaves \<open>next_task\<close> null and returns
  false; otherwise the head becomes \<open>next_task\<close>, PendSV is requested and the result is
  true. A ready queue that was sorted by priority is sorted after the re-insertions and
  after the call.
\<close>

theorem doSwitch_follows_specification:
  assumes "s_isStarted s"
    and "s_criticalSection s \<longrightarrow> s_currentTask s \<noteq> 0"
    and "s_nextTask s \<noteq> 0 \<longrightarrow> s_currentTask s \<noteq> s_nextTask s"
  shows "doSwitch s = Inr (spec_do_switch s) \<and>
         (s_criticalSection s \<longrightarrow> doSwitch s = Inr (False, s\<lparr>s_mayNeedSwitch := True\<rparr>)) \<and>
         (\<not> s_criticalSection s \<longrightarrow>
            doSwitch s =
              Inr (case reinserted s of
                     [] \<Rightarrow> (True, s\<lparr>s_ready := [], s_nextTask := 0, s_currentTask := 0, pendsv := True\<rparr>)
                   | head # rest \<Rightarrow>
                       if head = s_currentTask s
                       then (False, s\<lparr>s_ready := rest, s_nextTask := 0, s_currentTask := head\<rparr>)
                       else (True, s\<lparr>s_ready := rest, s_nextTask := head, s_currentTask := 0,
                                     pendsv := True\<rparr>))) \<and>
         (sorted_by_priority (tasks s) (s_ready s) \<longrightarrow>
            sorted_by_priority (tasks s) (reinserted s) \<and>
            sorted_by_priority (tasks (snd (spec_do_switch s))) (s_ready (snd (spec_do_switch s))))"
proof -
  have pre: "doSwitch_pre s"
    using assms by (simp add: doSwitch_pre_def)
  have r: "doSwitch s = Inr (spec_do_switch s)"
    by (rule doSwitch_refines [OF pre])
  have c: "s_criticalSection s \<Longrightarrow> spec_do_switch s = (False, s\<lparr>s_mayNeedSwitch := True\<rparr>)"
    by (simp add: spec_do_switch_def)
  have e: "doSwitch s =
              Inr (case reinserted s of
                     [] \<Rightarrow> (True, s\<lparr>s_ready := [], s_nextTask := 0, s_currentTask := 0, pendsv := True\<rparr>)
                   | head # rest \<Rightarrow>
                       if head = s_currentTask s
                       then (False, s\<lparr>s_ready := rest, s_nextTask := 0, s_currentTask := head\<rparr>)
                       else (True, s\<lparr>s_ready := rest, s_nextTask := head, s_currentTask := 0,
                                     pendsv := True\<rparr>))"
    if nc: "\<not> s_criticalSection s"
    by (simp only: r spec_do_switch_eq [OF nc])
  show ?thesis
    apply (intro conjI impI)
        apply (rule r)
       apply (simp only: r c)
      apply (erule e)
     apply (erule sorted_reinserted)
    apply (erule spec_do_switch_sorted)
    done
qed

theorem doSwitch_follows_specification_witness:
  "s_isStarted three_tasks \<and> s_currentTask three_tasks \<noteq> 0 \<and> s_nextTask three_tasks = 0 \<and>
   sorted_by_priority (tasks three_tasks) (s_ready three_tasks) \<and>
   reinserted three_tasks = [1, 2, 3] \<and>
   doSwitch three_tasks = Inr (False, three_tasks) \<and>
   doSwitch (three_tasks\<lparr>s_criticalSection := True\<rparr>)
     = Inr (False, three_tasks\<lparr>s_criticalSection := True, s_mayNeedSwitch := True\<rparr>)"
proof -
  have t: "tasks three_tasks 1 = started_task 1 0x10" "tasks three_tasks 2 = started_task 2 0x80"
    "tasks three_tasks 3 = started_task 3 0x90"
    by (simp_all add: three_tasks_def)
  have f: "s_isStarted three_tasks" "s_currentTask three_tasks = 1" "s_nextTask three_tasks = 0"
    "s_ready three_tasks = [2, 3]" "\<not> s_criticalSection three_tasks"
    by (simp_all add: three_tasks_def boot_def)
  have p: "priorityIsLower (tasks three_tasks) 1 2" "priorityIsLower (tasks three_tasks) 2 3"
     "\<not> priorityIsLower (tasks three_tasks) 3 2"
    by (simp_all add: priorityIsLower_def t started_task_def TaskControlBlock_new_def)
  have srt: "sorted_by_priority (tasks three_tasks) (s_ready three_tasks)"
    by (simp add: sorted_by_priority_def f p)
  have re: "reinserted three_tasks = [1, 2, 3]"
    by (simp add: reinserted_def f ordered_insert_simps p)
  have same: "three_tasks\<lparr>s_ready := [2, 3], s_nextTask := 0, s_currentTask := 1\<rparr> = three_tasks"
    by (simp add: three_tasks_def boot_def)
  have h: "s_isStarted three_tasks" "s_criticalSection three_tasks \<longrightarrow> s_currentTask three_tasks \<noteq> 0"
    "s_nextTask three_tasks \<noteq> 0 \<longrightarrow> s_currentTask three_tasks \<noteq> s_nextTask three_tasks"
    using f by simp_all
  have d1: "doSwitch three_tasks = Inr (False, three_tasks)"
    using doSwitch_follows_specification [OF h, THEN conjunct2, THEN conjunct2, THEN conjunct1]
    by (simp add: f re same)
  have h2: "s_isStarted (three_tasks\<lparr>s_criticalSection := True\<rparr>)"
    "s_criticalSection (three_tasks\<lparr>s_criticalSection := True\<rparr>)
       \<longrightarrow> s_currentTask (three_tasks\<lparr>s_criticalSection := True\<rparr>) \<noteq> 0"
    "s_nextTask (three_tasks\<lparr>s_criticalSection := True\<rparr>) \<noteq> 0
       \<longrightarrow> s_currentTask (three_tasks\<lparr>s_criticalSection := True\<rparr>)
            \<noteq> s_nextTask (three_tasks\<lparr>s_criticalSection := True\<rparr>)"
    using f by simp_all
  have d2: "doSwitch (three_tasks\<lparr>s_criticalSection := True\<rparr>)
     = Inr (False, three_tasks\<lparr>s_criticalSection := True, s_mayNeedSwitch := True\<rparr>)"
    using doSwitch_follows_specification [OF h2, THEN conjunct2, THEN conjunct1]
    by simp
  show ?thesis using f srt re d1 d2 by simp
qed

subsection \<open>Frame of \<open>doSwitch\<close>, \<open>erase\<close>, \<open>Terminate\<close>\<close>

lemma doSwitch_preserves:
  assumes "doSwitch s = Inr (b, s')"
  shows "tasks s' = tasks s" "conditions s' = conditions s" "mutexes s' = mutexes s"
    "s_timeouts s' = s_timeouts s" "s_allTasks s' = s_allTasks s" "s_ticks s' = s_ticks s"
    "memory s' = memory s" "s_previousTask s' = s_previousTask s" "basepri s' = basepri s"
    "primask s' = primask s" "ipsr s' = ipsr s" "s_isStarted s' = s_isStarted s"
    "s_criticalSection s' = s_criticalSection s" "NDEBUG s' = NDEBUG s" "s_idle s' = s_idle s"
    "s_idling s' = s_idling s"
proof -
  have e: "outside_switch s' = outside_switch s"
    by (rule doSwitch_frame [OF assms])
  show "tasks s' = tasks s" using arg_cong [OF e, of tasks] by (simp add: outside_switch_def)
  show "conditions s' = conditions s" using arg_cong [OF e, of conditions] by (simp add: outside_switch_def)
  show "mutexes s' = mutexes s" using arg_cong [OF e, of mutexes] by (simp add: outside_switch_def)
  show "s_timeouts s' = s_timeouts s" using arg_cong [OF e, of s_timeouts] by (simp add: outside_switch_def)
  show "s_allTasks s' = s_allTasks s" using arg_cong [OF e, of s_allTasks] by (simp add: outside_switch_def)
  show "s_ticks s' = s_ticks s" using arg_cong [OF e, of s_ticks] by (simp add: outside_switch_def)
  show "memory s' = memory s" using arg_cong [OF e, of memory] by (simp add: outside_switch_def)
  show "s_previousTask s' = s_previousTask s" using arg_cong [OF e, of s_previousTask] by (simp add: outside_switch_def)
  show "basepri s' = basepri s" using arg_cong [OF e, of basepri] by (simp add: outside_switch_def)
  show "primask s' = primask s" using arg_cong [OF e, of primask] by (simp add: outside_switch_def)
  show "ipsr s' = ipsr s" using arg_cong [OF e, of ipsr] by (simp add: outside_switch_def)
  show "s_isStarted s' = s_isStarted s" using arg_cong [OF e, of s_isStarted] by (simp add: outside_switch_def)
  show "s_criticalSection s' = s_criticalSection s" using arg_cong [OF e, of s_criticalSection] by (simp add: outside_switch_def)
  show "NDEBUG s' = NDEBUG s" using arg_cong [OF e, of NDEBUG] by (simp add: outside_switch_def)
  show "s_idle s' = s_idle s" using arg_cong [OF e, of s_idle] by (simp add: outside_switch_def)
  show "s_idling s' = s_idling s" using arg_cong [OF e, of s_idling] by (simp add: outside_switch_def)
qed

lemma erase_absent: "distinct xs \<Longrightarrow> x \<notin> set (erase x xs)"
  by (induction xs) auto

lemma set_erase_subset: "set (erase x xs) \<subseteq> set xs"
  by (induction xs) auto

lemma erase_not_member: "x \<notin> set xs \<Longrightarrow> erase x xs = xs"
  by (induction xs) auto


lemma Terminate_unlink_task:
  "m_active (tasks (Terminate_unlink task s) task) = False"
  "m_waitUntil (tasks (Terminate_unlink task s) task) = None"
  "m_waiting (tasks (Terminate_unlink task s) task) = 0"
  by (simp_all add: Terminate_unlink_def Let_def update_task_def removeWaiting_def
        update_condition_def has_value_def)

lemma Terminate_unlink_lists:
  "s_allTasks (Terminate_unlink task s) = erase task (s_allTasks s)"
  "s_timeouts (Terminate_unlink task s) =
     (if m_waitUntil (tasks s task) \<noteq> None then erase task (s_timeouts s) else s_timeouts s)"
  "m_waitingList (conditions (Terminate_unlink task s) c) =
     (if m_waiting (tasks s task) = c \<and> c \<noteq> 0 then erase task (m_waitingList (conditions s c))
      else m_waitingList (conditions s c))"
  by (simp_all add: Terminate_unlink_def Let_def update_task_def removeWaiting_def
        update_condition_def has_value_def)

lemma Terminate_unlink_same:
  "s_ready (Terminate_unlink task s) = s_ready s"
  "s_currentTask (Terminate_unlink task s) = s_currentTask s"
  "s_nextTask (Terminate_unlink task s) = s_nextTask s"
  "s_criticalSection (Terminate_unlink task s) = s_criticalSection s"
  "s_isStarted (Terminate_unlink task s) = s_isStarted s"
  "NDEBUG (Terminate_unlink task s) = NDEBUG s"
  "t \<noteq> task \<Longrightarrow> tasks (Terminate_unlink task s) t = tasks s t"
  by (simp_all add: Terminate_unlink_def Let_def update_task_def removeWaiting_def
        update_condition_def has_value_def)



lemma doSwitch_Inr_iff: "doSwitch s = Inr r \<longleftrightarrow> doSwitch_pre s \<and> r = spec_do_switch s"
proof (cases "doSwitch_pre s")
  case True
  then show ?thesis using doSwitch_refines [OF True] by auto
next
  case False
  then have "doSwitch s = Inl AssertFailed"
    by (auto simp: doSwitch_pre_def doSwitch_def doSwitch_next_def assert_fails_def)
  with False show ?thesis by simp
qed

lemma spec_do_switch_no_current:
  assumes "s_currentTask s = 0" "\<not> s_criticalSection s"
  shows "s_currentTask (snd (spec_do_switch s)) = 0"
  using assms by (simp add: spec_do_switch_eq split: list.splits)

text \<open>
  Termination where \<open>waiting_on\<close> tells the truth (the task is on the waiting list that
  \<open>waiting_on\<close> names): terminating a task whose \<open>active\<close> flag is already false changes
  nothing. When the flag was true, the task is deactivated and erased from the all-tasks
  list, from the timeout queue when it had a deadline (which is cleared), and from the
  waiting list of the condition variable it waited on (\<open>waiting_on\<close> is cleared); when the
  task is the current one, \<open>current_task\<close> is cleared and the result is that of \<open>doSwitch\<close>.
  A second termination of the same task returns the state unchanged.
\<close>

lemma Terminate_once_only:
  assumes "r0 frame \<noteq> 0"
    and "m_waiting (tasks s (r0 frame)) \<noteq> 0
         \<longrightarrow> r0 frame \<in> set (m_waitingList (conditions s (m_waiting (tasks s (r0 frame)))))"
  shows "(\<not> m_active (tasks s (r0 frame)) \<longrightarrow> svc_Terminate frame s = Inr (False, s)) \<and>
         (m_active (tasks s (r0 frame)) \<longrightarrow>
            svc_Terminate frame s =
              (if r0 frame = s_currentTask s then
                 (if assert_fails s (\<not> s_criticalSection s) then Inl AssertFailed
                  else doSwitch ((Terminate_unlink (r0 frame) s)\<lparr>s_currentTask := 0, s_previousTask := 0\<rparr>))
               else Inr (False, Terminate_unlink (r0 frame) s))) \<and>
         (\<forall>b s'. m_active (tasks s (r0 frame)) \<and> svc_Terminate frame s = Inr (b, s') \<longrightarrow>
            \<not> m_active (tasks s' (r0 frame)) \<and>
            m_waitUntil (tasks s' (r0 frame)) = None \<and>
            m_waiting (tasks s' (r0 frame)) = 0 \<and>
            s_allTasks s' = erase (r0 frame) (s_allTasks s) \<and>
            (distinct (s_allTasks s) \<longrightarrow> r0 frame \<notin> set (s_allTasks s')) \<and>
            (m_waitUntil (tasks s (r0 frame)) \<noteq> None \<longrightarrow>
               s_timeouts s' = erase (r0 frame) (s_timeouts s) \<and>
               (distinct (s_timeouts s) \<longrightarrow> r0 frame \<notin> set (s_timeouts s'))) \<and>
            (m_waiting (tasks s (r0 frame)) \<noteq> 0 \<longrightarrow>
               m_waitingList (conditions s' (m_waiting (tasks s (r0 frame))))
                 = erase (r0 frame) (m_waitingList (conditions s (m_waiting (tasks s (r0 frame))))) \<and>
               (distinct (m_waitingList (conditions s (m_waiting (tasks s (r0 frame)))))
                  \<longrightarrow> r0 frame \<notin> set (m_waitingList (conditions s' (m_waiting (tasks s (r0 frame))))))) \<and>
            (r0 frame = s_currentTask s \<and> \<not> s_criticalSection s
               \<longrightarrow> s_previousTask s' = 0 \<and> s_currentTask s' = 0) \<and>
            svc_Terminate frame s' = Inr (False, s'))"
proof -
  define task where "task = r0 frame"
  define u where "u = Terminate_unlink task s"
  have nz: "task \<noteq> 0" using assms by (simp add: task_def)
  have inactive: "svc_Terminate frame s = Inr (False, s)" if "\<not> m_active (tasks s task)" for s
    using that nz by (simp add: svc_Terminate_def assert_fails_def task_def)
  have active: "svc_Terminate frame s =
      (if task = s_currentTask s then
         (if assert_fails s (\<not> s_criticalSection s) then Inl AssertFailed
          else doSwitch (u\<lparr>s_currentTask := 0, s_previousTask := 0\<rparr>))
       else Inr (False, u))"
    if "m_active (tasks s task)"
    using that nz
    by (simp add: svc_Terminate_def assert_fails_def Let_def Terminate_unlink_same task_def u_def)
  have final: "tasks s' = tasks u \<and> s_allTasks s' = s_allTasks u \<and> s_timeouts s' = s_timeouts u \<and>
      conditions s' = conditions u \<and>
      (task = s_currentTask s \<and> \<not> s_criticalSection s \<longrightarrow> s_previousTask s' = 0 \<and> s_currentTask s' = 0)"
    if a: "m_active (tasks s task)" "svc_Terminate frame s = Inr (b, s')" for b s'
  proof (cases "task = s_currentTask s")
    case False
    with a active have "s' = u" by simp
    with False show ?thesis by simp
  next
    case True
    let ?v = "u\<lparr>s_currentTask := 0, s_previousTask := 0\<rparr>"
    from True a active have d: "doSwitch ?v = Inr (b, s')"
      by (simp split: if_splits)
    have c: "s_currentTask s' = 0" if "\<not> s_criticalSection s"
    proof -
      from d have "(b, s') = spec_do_switch ?v" by (simp add: doSwitch_Inr_iff)
      then have "s' = snd (spec_do_switch ?v)" by (metis snd_conv)
      moreover have "s_currentTask ?v = 0" "\<not> s_criticalSection ?v"
        using that by (simp_all add: u_def Terminate_unlink_same)
      ultimately show ?thesis using spec_do_switch_no_current [of ?v] by blast
    qed
    show ?thesis
      using doSwitch_preserves [OF d] c by simp
  qed
  show ?thesis
  proof (intro conjI allI impI)
    show "svc_Terminate frame s = Inr (False, s)" if "\<not> m_active (tasks s (r0 frame))"
      using that inactive by (simp add: task_def)
  next
    show "svc_Terminate frame s =
        (if r0 frame = s_currentTask s then
           (if assert_fails s (\<not> s_criticalSection s) then Inl AssertFailed
            else doSwitch ((Terminate_unlink (r0 frame) s)\<lparr>s_currentTask := 0, s_previousTask := 0\<rparr>))
         else Inr (False, Terminate_unlink (r0 frame) s))"
      if "m_active (tasks s (r0 frame))"
      using that active by (simp add: task_def u_def)
  next
    fix b s'
    assume "m_active (tasks s (r0 frame)) \<and> svc_Terminate frame s = Inr (b, s')"
    then have f: "tasks s' = tasks u" "s_allTasks s' = s_allTasks u" "s_timeouts s' = s_timeouts u"
      "conditions s' = conditions u"
      "task = s_currentTask s \<and> \<not> s_criticalSection s \<longrightarrow> s_previousTask s' = 0 \<and> s_currentTask s' = 0"
      using final [of b s'] by (simp_all add: task_def)
    show "\<not> m_active (tasks s' (r0 frame))"
      by (simp add: f u_def Terminate_unlink_task flip: task_def)
    show "m_waitUntil (tasks s' (r0 frame)) = None"
      by (simp add: f u_def Terminate_unlink_task flip: task_def)
    show "m_waiting (tasks s' (r0 frame)) = 0"
      by (simp add: f u_def Terminate_unlink_task flip: task_def)
    show "s_allTasks s' = erase (r0 frame) (s_allTasks s)"
      by (simp add: f u_def Terminate_unlink_lists flip: task_def)
    show "r0 frame \<notin> set (s_allTasks s')" if "distinct (s_allTasks s)"
      using that by (simp add: f u_def Terminate_unlink_lists erase_absent flip: task_def)
    show "s_timeouts s' = erase (r0 frame) (s_timeouts s)" if "m_waitUntil (tasks s (r0 frame)) \<noteq> None"
      using that by (simp add: f u_def Terminate_unlink_lists flip: task_def)
    show "r0 frame \<notin> set (s_timeouts s')"
      if "m_waitUntil (tasks s (r0 frame)) \<noteq> None" "distinct (s_timeouts s)"
      using that by (simp add: f u_def Terminate_unlink_lists erase_absent flip: task_def)
    show "m_waitingList (conditions s' (m_waiting (tasks s (r0 frame))))
        = erase (r0 frame) (m_waitingList (conditions s (m_waiting (tasks s (r0 frame)))))"
      if "m_waiting (tasks s (r0 frame)) \<noteq> 0"
      using that by (simp add: f u_def Terminate_unlink_lists flip: task_def)
    show "r0 frame \<notin> set (m_waitingList (conditions s' (m_waiting (tasks s (r0 frame)))))"
      if "m_waiting (tasks s (r0 frame)) \<noteq> 0"
        "distinct (m_waitingList (conditions s (m_waiting (tasks s (r0 frame)))))"
      using that by (simp add: f u_def Terminate_unlink_lists erase_absent flip: task_def)
    show "s_previousTask s' = 0" if "r0 frame = s_currentTask s \<and> \<not> s_criticalSection s"
      using that f by (simp add: task_def)
    show "s_currentTask s' = 0" if "r0 frame = s_currentTask s \<and> \<not> s_criticalSection s"
      using that f by (simp add: task_def)
    have "\<not> m_active (tasks s' task)"
      by (simp add: f u_def Terminate_unlink_task)
    then show "svc_Terminate frame s' = Inr (False, s')"
      by (rule inactive)
  qed
qed


lemma three_tasks_fields:
  "s_isStarted three_tasks" "s_currentTask three_tasks = 1" "s_nextTask three_tasks = 0"
  "s_ready three_tasks = [2, 3]" "\<not> s_criticalSection three_tasks" "\<not> NDEBUG three_tasks"
  "s_allTasks three_tasks = [3, 2, 1]" "s_timeouts three_tasks = []"
  "tasks three_tasks 1 = started_task 1 0x10" "tasks three_tasks 2 = started_task 2 0x80"
  "tasks three_tasks 3 = started_task 3 0x90"
  by (simp_all add: three_tasks_def boot_def)

lemma Terminate_once_only_example:
  "r0 \<lparr>r0 = 2, r1 = 0, r2 = 0, r3 = 0, r12 = 0, lr = 0, pc = 0, psr = 0\<rparr> \<noteq> 0 \<and>
   m_active (tasks three_tasks 2) \<and>
   (\<exists>s'. svc_Terminate \<lparr>r0 = 2, r1 = 0, r2 = 0, r3 = 0, r12 = 0, lr = 0, pc = 0, psr = 0\<rparr> three_tasks
            = Inr (False, s') \<and>
         s_allTasks s' = [3, 1] \<and> \<not> m_active (tasks s' 2) \<and>
         svc_Terminate \<lparr>r0 = 2, r1 = 0, r2 = 0, r3 = 0, r12 = 0, lr = 0, pc = 0, psr = 0\<rparr> s'
            = Inr (False, s'))"
proof -
  let ?f = "\<lparr>r0 = 2, r1 = 0, r2 = 0, r3 = 0, r12 = 0, lr = 0, pc = 0, psr = 0\<rparr> :: StackFrame"
  have nz: "r0 ?f \<noteq> 0" by simp
  have act: "m_active (tasks three_tasks (r0 ?f))"
    by (simp add: three_tasks_fields started_task_def)
  have w: "m_waiting (tasks three_tasks (r0 ?f)) \<noteq> 0
      \<longrightarrow> r0 ?f \<in> set (m_waitingList (conditions three_tasks (m_waiting (tasks three_tasks (r0 ?f)))))"
    by (simp add: three_tasks_fields started_task_def TaskControlBlock_new_def)
  note t = Terminate_once_only [OF nz w]
  have e: "svc_Terminate ?f three_tasks = Inr (False, Terminate_unlink 2 three_tasks)"
    using t [THEN conjunct2, THEN conjunct1] act by (simp add: three_tasks_fields)
  have p: "\<not> m_active (tasks (Terminate_unlink 2 three_tasks) 2) \<and>
      s_allTasks (Terminate_unlink 2 three_tasks) = [3, 1] \<and>
      svc_Terminate ?f (Terminate_unlink 2 three_tasks) = Inr (False, Terminate_unlink 2 three_tasks)"
    using t [THEN conjunct2, THEN conjunct2, rule_format, of False "Terminate_unlink 2 three_tasks"] act e
    by (simp add: three_tasks_fields)
  show ?thesis using act e p by simp
qed

subsection \<open>Scheduler::start and TaskControlBlock::start, called twice\<close>

lemma Scheduler_start_again_debug:
  "\<not> NDEBUG s \<Longrightarrow> s_isStarted s \<Longrightarrow> Scheduler_start idle s = Inl AssertFailed"
  by (simp add: Scheduler_start_def assert_fails_def)

lemma Scheduler_start_eq:
  assumes "NDEBUG s \<or>
     ((cpuid_partno s = M4 \<or> cpuid_partno s = M7) \<and> \<not> s_isStarted s \<and> coreClock s mod 1000 = 0 \<and>
      coreClock s div 1000 \<noteq> 0 \<and> coreClock s div 1000 - 1 \<le> SystickReloadMask)"
  shows "Scheduler_start idle s = doSwitch (start_prepared idle s)"
proof (cases "NDEBUG s")
  case True
  then show ?thesis
    by (simp add: Scheduler_start_def assert_fails_def Let_def setPriority_def enableSystick_def
          start_prepared_def)
next
  case False
  with assms have a: "cpuid_partno s = M4 \<or> cpuid_partno s = M7" "\<not> s_isStarted s"
    "coreClock s mod 1000 = 0" "coreClock s div 1000 \<noteq> 0"
    "coreClock s div 1000 - 1 \<le> SystickReloadMask"
    by simp_all
  show ?thesis
    using a
    by (simp add: Scheduler_start_def assert_fails_def Let_def setPriority_def enableSystick_def
          start_prepared_def)
qed

lemma start_prepared_fields:
  "s_isStarted (start_prepared idle s)" "s_ready (start_prepared idle s) = s_ready s"
  "s_currentTask (start_prepared idle s) = s_currentTask s"
  "s_nextTask (start_prepared idle s) = s_nextTask s"
  "s_criticalSection (start_prepared idle s) = s_criticalSection s"
  "NDEBUG (start_prepared idle s) = NDEBUG s"
  "cpuid_partno (start_prepared idle s) = cpuid_partno s"
  "coreClock (start_prepared idle s) = coreClock s"
  "tasks (start_prepared idle s) = tasks s"
  by (simp_all add: start_prepared_def setPriority_def)

lemma boot_fields:
  "NDEBUG (boot n p c) = n" "cpuid_partno (boot n p c) = p" "coreClock (boot n p c) = c"
  "\<not> s_isStarted (boot n p c)" "s_ready (boot n p c) = []" "s_currentTask (boot n p c) = 0"
  "s_nextTask (boot n p c) = 0" "\<not> s_criticalSection (boot n p c)"
  by (simp_all add: boot_def)

lemma first_start:
  "Scheduler_start 9 (boot n M4 168000000)
     = Inr (True, (start_prepared 9 (boot n M4 168000000))
                    \<lparr>s_ready := [], s_nextTask := 0, s_currentTask := 0, pendsv := True\<rparr>)"
proof -
  let ?p = "start_prepared 9 (boot n M4 168000000)"
  have "Scheduler_start 9 (boot n M4 168000000) = doSwitch ?p"
    by (rule Scheduler_start_eq) (simp add: boot_fields SystickReloadMask_def)
  moreover have "doSwitch_pre ?p"
    by (simp add: doSwitch_pre_def start_prepared_fields boot_fields)
  moreover have "reinserted ?p = []"
    by (simp add: reinserted_def start_prepared_fields boot_fields)
  moreover have "\<not> s_criticalSection ?p"
    by (simp add: start_prepared_fields boot_fields)
  ultimately show ?thesis
    by (simp add: doSwitch_refines spec_do_switch_eq)
qed

text \<open>
  C8, at the input where the code leaves it: \<open>Scheduler::start\<close> called again on a started
  scheduler. From the boot state the first call returns true. The second call fails
  \<open>assert(!s_isStarted)\<close> in a debug build; in a release build it runs the initialisation
  again and returns the result of \<open>doSwitch\<close>, here true. It does not return false for
  being already started.
\<close>

theorem Scheduler_start_twice:
  "(\<exists>s1. Scheduler_start 9 (boot False M4 168000000) = Inr (True, s1) \<and>
         Scheduler_start 9 s1 = Inl AssertFailed) \<and>
   (\<exists>s1 s2. Scheduler_start 9 (boot True M4 168000000) = Inr (True, s1) \<and>
         Scheduler_start 9 s1 = Inr (True, s2))"
proof
  let ?s1 = "(start_prepared 9 (boot False M4 168000000))
                    \<lparr>s_ready := [], s_nextTask := 0, s_currentTask := 0, pendsv := True\<rparr>"
  have "Scheduler_start 9 ?s1 = Inl AssertFailed"
    by (rule Scheduler_start_again_debug) (simp_all add: start_prepared_fields boot_fields)
  then show "\<exists>s1. Scheduler_start 9 (boot False M4 168000000) = Inr (True, s1) \<and>
         Scheduler_start 9 s1 = Inl AssertFailed"
    using first_start [of False] by blast
next
  let ?s1 = "(start_prepared 9 (boot True M4 168000000))
                    \<lparr>s_ready := [], s_nextTask := 0, s_currentTask := 0, pendsv := True\<rparr>"
  let ?p = "start_prepared 9 ?s1"
  have "Scheduler_start 9 ?s1 = doSwitch ?p"
    by (rule Scheduler_start_eq) (simp add: start_prepared_fields boot_fields)
  moreover have "doSwitch_pre ?p"
    by (simp add: doSwitch_pre_def start_prepared_fields boot_fields)
  moreover have "reinserted ?p = []"
    by (simp add: reinserted_def start_prepared_fields boot_fields)
  moreover have "\<not> s_criticalSection ?p"
    by (simp add: start_prepared_fields boot_fields)
  ultimately have "\<exists>s2. Scheduler_start 9 ?s1 = Inr (True, s2)"
    by (simp add: doSwitch_refines spec_do_switch_eq)
  then show "\<exists>s1 s2. Scheduler_start 9 (boot True M4 168000000) = Inr (True, s1) \<and>
         Scheduler_start 9 s1 = Inr (True, s2)"
    using first_start [of True] by blast
qed


lemma triggerSoftSwitch_tasks:
  "triggerSoftSwitch s = Inr s' \<Longrightarrow> tasks s' = tasks s"
  by (auto simp: triggerSoftSwitch_def setBasepri_def Let_def split: if_splits sum.splits prod.splits
        dest!: doSwitch_preserves(1))

lemma addTask_tasks: "addTask task s = Inr s' \<Longrightarrow> tasks s' = tasks s"
  by (auto simp: addTask_def Let_def insert_by_priority_eq split: if_splits
        dest!: triggerSoftSwitch_tasks)

lemma initial_stack_tasks:
  "tasks (initial_stack task s) = (tasks s)(task := (tasks s task)\<lparr>m_stackPointer :=
     item_offset (item_offset (item_offset (m_stackBase (tasks s task)) (m_stackSize (tasks s task) - 1))
        (- sizeof_StackFrame)) (- sizeof_Context)\<rparr>)"
  by (simp add: initial_stack_def Let_def store_word_def update_task_def)

lemma initial_stack_fields:
  "s_isStarted (initial_stack task s) = s_isStarted s"
  "s_allTasks (initial_stack task s) = s_allTasks s"
  "s_ready (initial_stack task s) = s_ready s"
  by (simp_all add: initial_stack_def Let_def store_word_def update_task_def)

text \<open>A task that is started is in no list: its \<open>Handle\<close> node and its \<open>Waiting\<close> node are
  free, as \<open>addTask\<close> asserts through \<open>push_front\<close> and \<open>insertWhen\<close>.\<close>

lemma TaskControlBlock_start_twice:
  assumes "TaskControlBlock_start task entry name s = Inr (b, s')" "\<not> m_active (tasks s task)"
    and "task \<notin> set (s_allTasks s)" "task \<notin> set (s_ready s)"
    and "\<forall>c. task \<notin> set (m_waitingList (conditions s c))"
  shows "b \<and> m_active (tasks s' task) \<and>
         TaskControlBlock_start task entry' name' s' = Inr (False, s')"
proof -
  let ?s1 = "update_task task (\<lambda>t. t\<lparr>m_active := True, m_entry := entry, m_name := name\<rparr>) s"
  from assms(1,2) have a: "addTask task (initial_stack task ?s1) = Inr s'" and b: "b"
    by (auto simp: TaskControlBlock_start_def Let_def split: sum.splits)
  have "m_active (tasks s' task)"
    using addTask_tasks [OF a] by (simp add: initial_stack_tasks update_task_def)
  then show ?thesis
    using b by (simp add: TaskControlBlock_start_def)
qed

lemma TaskControlBlock_start_first:
  assumes "\<not> m_active (tasks s task)" "\<not> s_isStarted s"
    and "task \<notin> set (s_allTasks s)" "task \<notin> set (s_ready s)"
    and "\<forall>c. task \<notin> set (m_waitingList (conditions s c))"
  shows "\<exists>s'. TaskControlBlock_start task entry name s = Inr (True, s')"
  using assms(1,2)
  by (simp add: TaskControlBlock_start_def Let_def addTask_def insert_by_priority_eq
        initial_stack_fields update_task_def)

subsection \<open>The timeout queue and \<open>Sleep\<close>\<close>

lemma insertWhen_loop_defined:
  assumes "\<And>y. y \<in> set xs \<Longrightarrow> predicate x y = Inr (p x y)"
  shows "insertWhen_loop predicate x xs =
     Inr (takeWhile (\<lambda>y. \<not> p x y) xs @ x # dropWhile (\<lambda>y. \<not> p x y) xs)"
  using assms by (induction xs) auto

lemma insertWhen_defined:
  assumes "\<And>y. y \<in> set xs \<Longrightarrow> predicate x y = Inr (p x y)"
  shows "insertWhen predicate x xs =
     Inr (takeWhile (\<lambda>y. \<not> p x y) xs @ x # dropWhile (\<lambda>y. \<not> p x y) xs)"
proof (cases xs)
  case Nil
  then show ?thesis by (simp add: insertWhen_def push_front_def)
next
  case (Cons y ys)
  have "insertWhen_loop predicate x ys =
     Inr (takeWhile (\<lambda>y. \<not> p x y) ys @ x # dropWhile (\<lambda>y. \<not> p x y) ys)"
    by (rule insertWhen_loop_defined) (simp add: assms Cons)
  moreover have "predicate x y = Inr (p x y)"
    by (simp add: assms Cons)
  ultimately show ?thesis
    using Cons by (simp add: insertWhen_def push_front_def)
qed

lemma insert_by_wakeup_eq:
  assumes "ndebug \<or> (m_waitUntil (ts x) \<noteq> None \<and> (\<forall>y\<in>set xs. m_waitUntil (ts y) \<noteq> None))"
  shows "insert_by_wakeup ndebug ts x xs = Inr (insert_by_deadline ts x xs)"
  unfolding insert_by_wakeup_def insert_by_deadline_def
  by (rule insertWhen_defined) (use assms in \<open>auto simp: wakeupAfter_def wakes_before_def has_value_def\<close>)

lemma sorted_wrt_insert_before:
  assumes asym: "\<And>a b. p a b \<Longrightarrow> \<not> p b a"
    and trans: "\<And>a b c. p a b \<Longrightarrow> p b c \<Longrightarrow> p a c"
    and srt: "sorted_wrt (\<lambda>a b. \<not> p b a) xs"
  shows "sorted_wrt (\<lambda>a b. \<not> p b a)
           (takeWhile (\<lambda>y. \<not> p x y) xs @ x # dropWhile (\<lambda>y. \<not> p x y) xs)"
  using srt
proof (induction xs)
  case Nil
  then show ?case by simp
next
  case (Cons y ys)
  show ?case
  proof (cases "p x y")
    case True
    have "\<not> p z x" if "z \<in> set (y # ys)" for z
    proof
      assume "p z x"
      then have "p z y" using True by (rule trans)
      with that Cons.prems show False by (auto dest: asym)
    qed
    with True Cons.prems show ?thesis by simp
  next
    case False
    have "set (takeWhile (\<lambda>y. \<not> p x y) ys @ x # dropWhile (\<lambda>y. \<not> p x y) ys) = insert x (set ys)"
      by (metis Un_insert_right list.simps(15) set_append takeWhile_dropWhile_id)
    with False Cons show ?thesis by auto
  qed
qed

lemma sorted_insert_by_deadline:
  "sorted_by_deadline ts xs \<Longrightarrow> sorted_by_deadline ts (insert_by_deadline ts x xs)"
  unfolding sorted_by_deadline_def insert_by_deadline_def
  by (rule sorted_wrt_insert_before) (auto simp: wakes_before_def)

lemma set_insert_by_deadline: "set (insert_by_deadline ts x xs) = insert x (set xs)"
  unfolding insert_by_deadline_def
  by (metis Un_insert_right list.simps(15) set_append takeWhile_dropWhile_id)

lemma svc_Sleep_eq:
  assumes "NDEBUG s \<or> (isThread \<and> \<not> s_criticalSection s \<and> 0 \<le> sint (r0 frame + 1) \<and>
             (\<forall>t\<in>set (s_timeouts s). m_waitUntil (tasks s t) \<noteq> None))"
    and "s_currentTask s \<noteq> 0"
  shows "svc_Sleep frame isThread s = doSwitch (Sleep_queued frame s)"
proof -
  let ?s1 = "update_task (s_currentTask s) (\<lambda>t. t\<lparr>m_waitUntil := Some (s_ticks s + (r0 frame + 1))\<rparr>) s"
  have f: "NDEBUG ?s1 = NDEBUG s" "s_currentTask ?s1 = s_currentTask s" "s_timeouts ?s1 = s_timeouts s"
    by (simp_all add: update_task_def)
  have "insert_by_wakeup (NDEBUG s) (tasks ?s1) (s_currentTask s) (s_timeouts s)
      = Inr (insert_by_deadline (tasks ?s1) (s_currentTask s) (s_timeouts s))"
    by (rule insert_by_wakeup_eq) (use assms in \<open>auto simp: update_task_def\<close>)
  then show ?thesis
    using assms
    by (auto simp: svc_Sleep_def assert_fails_def Let_def f Sleep_queued_def)
qed


lemma sorted_by_deadline_cong:
  assumes "\<And>t. t \<in> set xs \<Longrightarrow> m_waitUntil (ts' t) = m_waitUntil (ts t)"
    and "sorted_by_deadline ts xs"
  shows "sorted_by_deadline ts' xs"
  using assms(2) unfolding sorted_by_deadline_def
  by (rule sorted_wrt_mono_rel [rotated]) (simp add: wakes_before_def assms(1))

lemma sint_succ:
  fixes a :: "32 word"
  assumes "sint a < 2147483647"
  shows "sint (a + 1) = sint a + 1"
proof -
  have "- (2 ^ 31) \<le> sint a" using sint_ge [of a] by simp
  then show ?thesis
    using assms by (simp add: sint_word_ariths signed_take_bit_int_eq_self)
qed

lemma Sleep_queued_fields:
  "s_isStarted (Sleep_queued frame s) = s_isStarted s"
  "s_currentTask (Sleep_queued frame s) = 0"
  "s_nextTask (Sleep_queued frame s) = s_nextTask s"
  "s_ready (Sleep_queued frame s) = s_ready s"
  "s_criticalSection (Sleep_queued frame s) = s_criticalSection s"
  "NDEBUG (Sleep_queued frame s) = NDEBUG s"
  "tasks (Sleep_queued frame s) =
     (tasks s)(s_currentTask s := (tasks s (s_currentTask s))\<lparr>m_waitUntil := Some (s_ticks s + (r0 frame + 1))\<rparr>)"
  "s_timeouts (Sleep_queued frame s) =
     insert_by_deadline (tasks (Sleep_queued frame s)) (s_currentTask s) (s_timeouts s)"
  by (simp_all add: Sleep_queued_def Let_def update_task_def)

text \<open>
  C6, as stated, fails at the largest \<open>delta\<close>: for \<open>Sleep(2147483647)\<close> the increment
  wraps to the most negative duration and \<open>assert(delta.count() >= 0)\<close> halts a debug
  build; no deadline is set.
\<close>

theorem Sleep_largest_delta_counterexample:
  "s_isStarted three_tasks \<and> s_currentTask three_tasks \<noteq> 0 \<and> \<not> s_criticalSection three_tasks \<and>
   s_timeouts three_tasks = [] \<and> 0 \<le> sint (0x7FFFFFFF :: 32 word) \<and>
   svc_Sleep \<lparr>r0 = 0x7FFFFFFF, r1 = 0, r2 = 0, r3 = 0, r12 = 0, lr = 0, pc = 0, psr = 0\<rparr> True three_tasks
     = Inl AssertFailed"
  by (simp add: three_tasks_fields svc_Sleep_def assert_fails_def)

text \<open>
  C6, amended: for every \<open>Sleep(delta)\<close> with \<open>0 \<le> delta < 2147483647\<close>, called in thread
  mode outside a critical section with a current task on a started scheduler whose
  queued tasks all have deadlines, the deadline of the current task is set to
  \<open>ticks + delta + 1\<close> (32-bit addition), the task is inserted into the timeout queue
  where \<open>wakeupAfter\<close> places it, which keeps a sorted queue sorted, \<open>current_task\<close> is
  cleared, and the result is that of \<open>doSwitch\<close> on that state.
\<close>

theorem Sleep_sets_deadline:
  assumes "s_isStarted s" and "s_currentTask s \<noteq> 0" and "\<not> s_criticalSection s"
    and "0 \<le> sint (r0 frame)" and "sint (r0 frame) < 2147483647"
    and "\<forall>t\<in>set (s_timeouts s). m_waitUntil (tasks s t) \<noteq> None"
  shows "svc_Sleep frame True s = doSwitch (Sleep_queued frame s) \<and>
         s_currentTask (Sleep_queued frame s) = 0 \<and>
         (\<exists>b s'. svc_Sleep frame True s = Inr (b, s') \<and>
            m_waitUntil (tasks s' (s_currentTask s)) = Some (s_ticks s + r0 frame + 1) \<and>
            s_timeouts s' = insert_by_deadline (tasks s') (s_currentTask s) (s_timeouts s) \<and>
            s_currentTask s \<in> set (s_timeouts s') \<and>
            (sorted_by_deadline (tasks s) (s_timeouts s) \<and> s_currentTask s \<notin> set (s_timeouts s)
               \<longrightarrow> sorted_by_deadline (tasks s') (s_timeouts s')))"
proof -
  let ?q = "Sleep_queued frame s"
  have nonneg: "0 \<le> sint (r0 frame + 1)"
    using assms(4,5) by (simp add: sint_succ)
  have e: "svc_Sleep frame True s = doSwitch ?q"
    by (rule svc_Sleep_eq) (use assms nonneg in auto)
  have "doSwitch_pre ?q"
    using assms by (simp add: doSwitch_pre_def Sleep_queued_fields)
  then have d: "doSwitch ?q = Inr (spec_do_switch ?q)"
    by (rule doSwitch_refines)
  obtain b s' where r: "spec_do_switch ?q = (b, s')" by (cases "spec_do_switch ?q")
  have p: "tasks s' = tasks ?q" "s_timeouts s' = s_timeouts ?q"
    using doSwitch_preserves [of ?q b s'] d r by simp_all
  have w: "m_waitUntil (tasks s' (s_currentTask s)) = Some (s_ticks s + r0 frame + 1)"
    by (simp add: p Sleep_queued_fields add.assoc)
  have t: "s_timeouts s' = insert_by_deadline (tasks s') (s_currentTask s) (s_timeouts s)"
    using Sleep_queued_fields(8) [of frame s] by (simp add: p)
  have m: "s_currentTask s \<in> set (s_timeouts s')"
    by (simp add: t set_insert_by_deadline)
  have srt: "sorted_by_deadline (tasks s') (s_timeouts s')"
    if "sorted_by_deadline (tasks s) (s_timeouts s)" "s_currentTask s \<notin> set (s_timeouts s)"
  proof -
    have "sorted_by_deadline (tasks s') (s_timeouts s)"
      by (rule sorted_by_deadline_cong [OF _ that(1)])
         (use that(2) in \<open>auto simp: p Sleep_queued_fields\<close>)
    then show ?thesis
      unfolding t by (rule sorted_insert_by_deadline)
  qed
  show ?thesis
    using e d r w t m srt by (auto simp: Sleep_queued_fields)
qed

theorem Sleep_sets_deadline_witness:
  "s_isStarted three_tasks \<and> s_currentTask three_tasks = 1 \<and> \<not> s_criticalSection three_tasks \<and>
   0 \<le> sint (250 :: 32 word) \<and> sint (250 :: 32 word) < 2147483647 \<and> s_timeouts three_tasks = [] \<and>
   (\<exists>b s'. svc_Sleep \<lparr>r0 = 250, r1 = 0, r2 = 0, r3 = 0, r12 = 0, lr = 0, pc = 0, psr = 0\<rparr> True three_tasks
              = Inr (b, s') \<and>
            m_waitUntil (tasks s' 1) = Some 251 \<and> s_timeouts s' = [1])"
proof -
  let ?f = "\<lparr>r0 = 250, r1 = 0, r2 = 0, r3 = 0, r12 = 0, lr = 0, pc = 0, psr = 0\<rparr> :: StackFrame"
  have h: "s_isStarted three_tasks" "s_currentTask three_tasks \<noteq> 0" "\<not> s_criticalSection three_tasks"
    "0 \<le> sint (r0 ?f)" "sint (r0 ?f) < 2147483647"
    "\<forall>t\<in>set (s_timeouts three_tasks). m_waitUntil (tasks three_tasks t) \<noteq> None"
    by (simp_all add: three_tasks_fields)
  have tk: "s_ticks three_tasks = 0"
    by (simp add: three_tasks_def boot_def Startup_def)
  from Sleep_sets_deadline [OF h, THEN conjunct2, THEN conjunct2]
  obtain b s' where "svc_Sleep ?f True three_tasks = Inr (b, s')"
    "m_waitUntil (tasks s' (s_currentTask three_tasks)) = Some (s_ticks three_tasks + r0 ?f + 1)"
    "s_timeouts s' = insert_by_deadline (tasks s') (s_currentTask three_tasks) (s_timeouts three_tasks)"
    by blast
  then have "svc_Sleep ?f True three_tasks = Inr (b, s') \<and> m_waitUntil (tasks s' 1) = Some 251 \<and>
      s_timeouts s' = [1]"
    by (simp add: three_tasks_fields tk insert_by_deadline_def)
  then show ?thesis
    using h by (auto simp: three_tasks_fields)
qed

subsection \<open>Scheduler::SystickHandler\<close>

lemma SystickHandler_body_eq:
  "s_timeouts s = task # rest \<Longrightarrow> SystickHandler_body s = Inr (promote task (s\<lparr>s_timeouts := rest\<rparr>))"
  by (simp add: SystickHandler_body_def front_def pop_front_def promote_def Let_def insert_by_priority_eq)

lemma promote_timeouts: "promote task (s\<lparr>s_timeouts := l\<rparr>) = (promote task s)\<lparr>s_timeouts := l\<rparr>"
  by (simp add: promote_def Let_def update_task_def setReturnValue_def removeWaiting_def
        update_condition_def returnValueSlot_def)

lemma promote_fields:
  "s_ticks (promote task s) = s_ticks s"
  "s_timeouts (promote task s) = s_timeouts s"
  "tasks (promote task s) = (tasks s)(task := (tasks s task)\<lparr>m_waitUntil := None\<rparr>)"
  "NDEBUG (promote task s) = NDEBUG s"
  by (simp_all add: promote_def Let_def update_task_def setReturnValue_def removeWaiting_def
        update_condition_def)


lemma SystickHandler_cond_eq:
  assumes "\<forall>t\<in>set (s_timeouts s). m_waitUntil (tasks s t) \<noteq> None"
  shows "SystickHandler_cond s = Inr (s_timeouts s \<noteq> [] \<and> expired s (hd (s_timeouts s)))"
  using assms
  by (cases "s_timeouts s") (auto simp: SystickHandler_cond_def expired_def split: option.splits)

lemma expired_promote:
  "u \<noteq> task \<Longrightarrow> expired (promote task s) u = expired s u"
  by (simp add: expired_def promote_fields split: option.splits)

lemma expired_timeouts: "expired (s\<lparr>s_timeouts := l\<rparr>) u = expired s u"
  by (simp add: expired_def split: option.splits)

lemma SystickHandler_loop_eq:
  assumes "s_timeouts s = xs" and "distinct xs"
    and "\<forall>t\<in>set xs. m_waitUntil (tasks s t) \<noteq> None"
  shows "SystickHandler_loop d s = Inr (d \<or> drained s \<noteq> [], spec_drain s)"
  using assms
proof (induction xs arbitrary: s d)
  case Nil
  then show ?case
    by (subst SystickHandler_loop.simps)
       (simp add: SystickHandler_cond_def drained_def spec_drain_def)
next
  case (Cons task rest)
  have c: "SystickHandler_cond s = Inr (expired s task)"
    using Cons.prems by (simp add: SystickHandler_cond_eq)
  show ?case
  proof (cases "expired s task")
    case False
    have "s\<lparr>s_timeouts := task # rest\<rparr> = s" using Cons.prems(1) by simp
    with False Cons.prems(1) c show ?thesis
      by (subst SystickHandler_loop.simps) (simp add: drained_def spec_drain_def)
  next
    case True
    let ?s' = "promote task (s\<lparr>s_timeouts := rest\<rparr>)"
    have b: "SystickHandler_body s = Inr ?s'"
      by (rule SystickHandler_body_eq) (rule Cons.prems(1))
    have t': "s_timeouts ?s' = rest" by (simp add: promote_fields)
    have nt: "\<forall>u\<in>set rest. u \<noteq> task" using Cons.prems(2) by auto
    have ex: "\<forall>u\<in>set rest. expired ?s' u = expired s u"
      using nt by (simp add: expired_promote expired_timeouts)
    have dl: "\<forall>t\<in>set rest. m_waitUntil (tasks ?s' t) \<noteq> None"
      using Cons.prems(3) nt by (simp add: promote_fields)
    have ih: "SystickHandler_loop True ?s' = Inr (True, spec_drain ?s')"
      using Cons.IH [OF t' _ dl, of True] Cons.prems(2) by simp
    have tw: "takeWhile (expired ?s') rest = takeWhile (expired s) rest"
      by (rule takeWhile_cong) (use ex in auto)
    have dw: "dropWhile (expired ?s') rest = dropWhile (expired s) rest"
      by (rule dropWhile_cong) (use ex in auto)
    have e1: "spec_drain ?s' = fold promote (takeWhile (expired ?s') rest)
                (?s'\<lparr>s_timeouts := dropWhile (expired ?s') rest\<rparr>)"
      by (simp only: spec_drain_def drained_def t')
    have e2: "?s'\<lparr>s_timeouts := dropWhile (expired s) rest\<rparr>
                = promote task (s\<lparr>s_timeouts := dropWhile (expired s) rest\<rparr>)"
      by (simp add: promote_timeouts)
    have e3: "spec_drain s = fold promote (task # takeWhile (expired s) rest)
                (s\<lparr>s_timeouts := dropWhile (expired s) rest\<rparr>)"
      using True Cons.prems(1) by (simp add: spec_drain_def drained_def)
    have "spec_drain ?s' = spec_drain s"
      by (simp only: e1 tw dw e2 e3 fold_simps)
    with ih b c True show ?thesis
      using Cons.prems(1)
      by (subst SystickHandler_loop.simps) (simp add: drained_def)
  qed
qed

lemma SystickHandler_refines:
  assumes "distinct (s_timeouts s)"
    and "\<forall>t\<in>set (s_timeouts s). m_waitUntil (tasks s t) \<noteq> None"
  shows "SystickHandler s = spec_tick s"
proof -
  let ?s1 = "s\<lparr>s_ticks := s_ticks s + 1\<rparr>"
  have "SystickHandler_loop False ?s1 = Inr (False \<or> drained ?s1 \<noteq> [], spec_drain ?s1)"
    by (rule SystickHandler_loop_eq [where xs = "s_timeouts s"]) (use assms in auto)
  then show ?thesis
    by (simp add: SystickHandler_def spec_tick_def Let_def)
qed


lemma ordered_insert_cong:
  assumes "\<And>t. m_priority (ts' t) = m_priority (ts t)"
    and "\<And>t. m_lastStarted (ts' t) = m_lastStarted (ts t)"
  shows "ordered_insert ts' x xs = ordered_insert ts x xs"
  by (simp add: ordered_insert_def priorityIsLower_def assms)

lemma promote_ready:
  "s_ready (promote task s) = ordered_insert (tasks s) task (s_ready s)"
proof -
  have "s_ready (promote task s)
      = ordered_insert ((tasks s)(task := (tasks s task)\<lparr>m_waitUntil := None\<rparr>)) task (s_ready s)"
    by (simp add: promote_def Let_def update_task_def setReturnValue_def removeWaiting_def
          update_condition_def)
  also have "\<dots> = ordered_insert (tasks s) task (s_ready s)"
    by (rule ordered_insert_cong) simp_all
  finally show ?thesis .
qed

lemma promote_waitingList:
  "m_waitingList (conditions (promote task s) c) =
     (if m_waiting (tasks s task) = c \<and> c \<noteq> 0 then erase task (m_waitingList (conditions s c))
      else m_waitingList (conditions s c))"
  by (simp add: promote_def Let_def update_task_def setReturnValue_def removeWaiting_def
        update_condition_def)


lemma fold_promote_fields:
  "s_ticks (fold promote ts s) = s_ticks s"
  "s_timeouts (fold promote ts s) = s_timeouts s"
  "NDEBUG (fold promote ts s) = NDEBUG s"
  by (induction ts arbitrary: s) (simp_all add: promote_fields)

lemma fold_promote_tasks:
  "tasks (fold promote ts s) t =
     (if t \<in> set ts then (tasks s t)\<lparr>m_waitUntil := None\<rparr> else tasks s t)"
  by (induction ts arbitrary: s) (auto simp: promote_fields)

lemma sorted_by_priority_cong:
  assumes "\<And>t. m_priority (ts' t) = m_priority (ts t)"
    and "\<And>t. m_lastStarted (ts' t) = m_lastStarted (ts t)"
  shows "sorted_by_priority ts' xs = sorted_by_priority ts xs"
  by (simp add: sorted_by_priority_def priorityIsLower_def assms)


lemma promote_sorted:
  assumes "sorted_by_priority (tasks s) (s_ready s)"
  shows "sorted_by_priority (tasks (promote task s)) (s_ready (promote task s))"
proof -
  have "sorted_by_priority (tasks (promote task s)) xs = sorted_by_priority (tasks s) xs" for xs
    by (rule sorted_by_priority_cong) (simp_all add: promote_fields)
  then show ?thesis
    using assms by (simp add: promote_ready sorted_ordered_insert)
qed

lemma fold_promote_sorted:
  "sorted_by_priority (tasks s) (s_ready s) \<Longrightarrow>
   sorted_by_priority (tasks (fold promote ts s)) (s_ready (fold promote ts s))"
  by (induction ts arbitrary: s) (simp_all add: promote_sorted)


lemma erase_keeps: "y \<noteq> x \<Longrightarrow> y \<in> set xs \<Longrightarrow> y \<in> set (erase x xs)"
  by (induction xs) auto



lemma fold_promote_waiting_kept:
  assumes "t \<notin> set ts" and "t \<in> set (m_waitingList (conditions s c))"
  shows "t \<in> set (m_waitingList (conditions (fold promote ts s) c))"
  using assms
proof (induction ts arbitrary: s)
  case Nil
  then show ?case by simp
next
  case (Cons u us)
  have "t \<in> set (m_waitingList (conditions (promote u s) c))"
    using Cons.prems by (simp add: promote_waitingList erase_keeps)
  with Cons show ?case by simp
qed


lemma returnValueSlot_not_sp: "returnValueSlot s t \<noteq> m_stackPointer (tasks s t)"
  by (simp add: returnValueSlot_def Let_def item_offset_def sizeof_Context_def sizeof_FpContext_def)

lemma returnValueSlot_cong:
  assumes "m_stackPointer (tasks s' t) = m_stackPointer (tasks s t)"
    and "memory s' (m_stackPointer (tasks s t)) = memory s (m_stackPointer (tasks s t))"
  shows "returnValueSlot s' t = returnValueSlot s t"
  using assms by (simp add: returnValueSlot_def Let_def)







lemma ticked_fields:
  "s_timeouts (ticked s) = s_timeouts s" "tasks (ticked s) = tasks s"
  "s_ticks (ticked s) = s_ticks s + 1" "conditions (ticked s) = conditions s"
  by (simp_all add: ticked_def)

lemma fold_promote_switch_fields:
  "s_isStarted (fold promote ts s) = s_isStarted s"
  "s_criticalSection (fold promote ts s) = s_criticalSection s"
  "s_currentTask (fold promote ts s) = s_currentTask s"
  "s_nextTask (fold promote ts s) = s_nextTask s"
proof -
  have p: "s_isStarted (promote t s) = s_isStarted s \<and>
      s_criticalSection (promote t s) = s_criticalSection s \<and>
      s_currentTask (promote t s) = s_currentTask s \<and> s_nextTask (promote t s) = s_nextTask s" for t s
    by (simp add: promote_def Let_def update_task_def setReturnValue_def removeWaiting_def
          update_condition_def)
  show "s_isStarted (fold promote ts s) = s_isStarted s"
    by (induction ts arbitrary: s) (simp_all add: p)
  show "s_criticalSection (fold promote ts s) = s_criticalSection s"
    by (induction ts arbitrary: s) (simp_all add: p)
  show "s_currentTask (fold promote ts s) = s_currentTask s"
    by (induction ts arbitrary: s) (simp_all add: p)
  show "s_nextTask (fold promote ts s) = s_nextTask s"
    by (induction ts arbitrary: s) (simp_all add: p)
qed









subsection \<open>\<open>EmbeddedList::erase\<close> on the links and on the sequence\<close>

lemma linked_cong:
  "(\<And>x. x \<in> set xs \<Longrightarrow> n' x = n x) \<Longrightarrow> linked n' prev xs nxt = linked n prev xs nxt"
  by (induction xs arbitrary: prev) simp_all

lemma linked_nonzero: "linked n prev xs nxt \<Longrightarrow> 0 \<notin> set xs"
  by (induction xs arbitrary: prev) auto

lemma linked_append:
  "linked n prev (ys @ zs) nxt =
     (linked n prev ys (case zs of [] \<Rightarrow> nxt | z # rest \<Rightarrow> z) \<and>
      linked n (if ys = [] then prev else last ys) zs nxt)"
  by (induction ys arbitrary: prev) (auto split: list.splits)

lemma linked_last_next:
  assumes "linked n prev ys a" "distinct ys" "ys \<noteq> []"
    and "\<And>y. y \<in> set ys \<Longrightarrow> n' y = (if y = last ys then (n y)\<lparr>m_next := b\<rparr> else n y)"
  shows "linked n' prev ys b"
  using assms
proof (induction ys arbitrary: prev)
  case Nil
  then show ?case by simp
next
  case (Cons y ys)
  show ?case
  proof (cases ys)
    case Nil
    with Cons.prems show ?thesis by simp
  next
    case c: (Cons z zs)
    have "linked n' y ys b"
    proof (rule Cons.IH)
      show "linked n y ys a" using Cons.prems(1) by simp
      show "distinct ys" using Cons.prems(2) by simp
      show "ys \<noteq> []" using c by simp
      show "n' x = (if x = last ys then (n x)\<lparr>m_next := b\<rparr> else n x)" if "x \<in> set ys" for x
        using Cons.prems(4) [of x] that c by simp
    qed
    moreover have "n' y = n y"
      using Cons.prems(2) Cons.prems(4) [of y] c by auto
    ultimately show ?thesis
      using Cons.prems(1) c by simp
  qed
qed

lemma linked_first_previous:
  assumes "linked n a zs nxt" "distinct zs"
    and "\<And>z. z \<in> set zs \<Longrightarrow> n' z = (if z = hd zs then (n z)\<lparr>m_previous := b\<rparr> else n z)"
  shows "linked n' b zs nxt"
proof (cases zs)
  case Nil
  then show ?thesis by simp
next
  case (Cons z rest)
  have "linked n' z rest nxt = linked n z rest nxt"
    by (rule linked_cong) (use assms(2,3) Cons in auto)
  then show ?thesis
    using assms(1) assms(3) [of z] Cons by simp
qed

lemma erase_append: "item \<notin> set ys \<Longrightarrow> erase item (ys @ item # zs) = ys @ zs"
  by (induction ys) auto

lemma size_nonzero: "0 < k \<Longrightarrow> k < 2 ^ 32 \<Longrightarrow> (of_nat k :: 32 word) \<noteq> 0"
  by (simp add: of_nat_neq_0)

lemma represents_not_empty:
  assumes "represents l n xs" "xs \<noteq> []"
  shows "EmbeddedList_empty d l = Inr False"
proof -
  from assms obtain x rest where xs: "xs = x # rest" by (cases xs) auto
  have "x \<noteq> 0" using assms(1) by (simp add: represents_def xs)
  moreover have "m_size l \<noteq> 0"
    using assms(1) size_nonzero [of "length xs"] by (simp add: represents_def xs)
  ultimately show ?thesis
    using assms(1) by (simp add: EmbeddedList_empty_def represents_def xs)
qed

lemma represents_empty: "represents l n [] \<Longrightarrow> EmbeddedList_empty d l = Inr True"
  by (simp add: EmbeddedList_empty_def represents_def)

text \<open>On a list that represents a sequence, \<open>erase\<close> of an item of the list returns a list
  that represents the sequence without the item, leaves the node of the item free and
  the nodes outside the list alone; \<open>erase\<close> of a free node that is not in the list changes
  nothing. These are the two cases in which the function \<open>erase\<close> on sequences is the
  source's \<open>erase\<close>.\<close>

lemma EmbeddedList_erase_free:
  assumes "represents l n xs" "item \<notin> set xs" "m_previous (n item) = 0" "m_next (n item) = 0"
  shows "EmbeddedList_erase d item l n = Inr (l, n) \<and> erase item xs = xs"
proof (cases xs)
  case Nil
  with assms(1) show ?thesis
    by (simp add: EmbeddedList_erase_def represents_empty)
next
  case (Cons x rest)
  then have "EmbeddedList_empty d l = Inr False"
    using represents_not_empty [OF assms(1)] by simp
  moreover have "m_first l \<noteq> item"
    using assms(1,2) Cons by (auto simp: represents_def)
  ultimately show ?thesis
    using assms(2,3,4) by (simp add: EmbeddedList_erase_def erase_not_member)
qed

lemma EmbeddedList_erase_member:
  assumes r: "represents l n xs" and m: "item \<in> set xs"
  shows "\<exists>l' n'. EmbeddedList_erase d item l n = Inr (l', n') \<and>
           represents l' n' (erase item xs) \<and>
           m_previous (n' item) = 0 \<and> m_next (n' item) = 0 \<and>
           (\<forall>p. p \<notin> set xs \<longrightarrow> n' p = n p)"
proof -
  from split_list_first [OF m] obtain ys zs where xs: "xs = ys @ item # zs" and ny: "item \<notin> set ys"
    by blast
  have d: "distinct ys" "distinct zs" "item \<notin> set zs" "set ys \<inter> set zs = {}"
    using r by (auto simp: represents_def xs)
  have ne: "EmbeddedList_empty d l = Inr False"
    by (rule represents_not_empty [OF r]) (simp add: xs)
  have er: "erase item xs = ys @ zs"
    by (simp add: xs erase_append ny)
  have lk: "linked n 0 ys item" "item \<noteq> 0" "m_previous (n item) = (if ys = [] then 0 else last ys)"
    "m_next (n item) = (case zs of [] \<Rightarrow> 0 | z # rest \<Rightarrow> z)" "linked n item zs 0"
    using r by (simp_all add: represents_def xs linked_append)
  have len: "length (ys @ zs) < 2 ^ 32"
    using r by (simp add: represents_def xs)
  have size: "m_size l - 1 = of_nat (length (ys @ zs))"
    using r by (simp add: represents_def xs)
  have first: "m_first l = (case ys of [] \<Rightarrow> item | y # rest \<Rightarrow> y)"
    using r by (simp add: represents_def xs split: list.splits)
  have nz: "0 \<notin> set ys" "0 \<notin> set zs"
    using linked_nonzero [OF lk(1)] linked_nonzero [OF lk(5)] by simp_all
  show ?thesis
  proof (cases ys)
    case ys: Nil
    show ?thesis
    proof (cases zs)
      case Nil
      have e: "EmbeddedList_erase d item l n = Inr (l\<lparr>m_first := 0, m_size := m_size l - 1\<rparr>, n)"
        using lk(3,4) first by (simp add: EmbeddedList_erase_def ne ys Nil)
      have "represents (l\<lparr>m_first := 0, m_size := m_size l - 1\<rparr>) n (erase item xs)"
        using size by (simp add: er represents_def ys Nil)
      then show ?thesis
        using e lk(3,4) by (simp add: ys Nil)
    next
      case (Cons z rest)
      let ?n1 = "n(item := (n item)\<lparr>m_next := 0\<rparr>)"
      let ?n2 = "?n1(z := (?n1 z)\<lparr>m_previous := 0\<rparr>)"
      let ?l = "l\<lparr>m_first := z, m_size := m_size l - 1\<rparr>"
      have zi: "z \<noteq> item" "z \<noteq> 0" "z \<notin> set rest" "item \<notin> set rest"
        using d nz Cons by auto
      have e: "EmbeddedList_erase d item l n = Inr (?l, ?n2)"
        using lk(3,4) zi by (simp add: EmbeddedList_erase_def ne ys Cons Let_def)
      have "linked ?n2 0 zs 0"
      proof (rule linked_first_previous [OF lk(5) d(2)])
        show "?n2 x = (if x = hd zs then (n x)\<lparr>m_previous := 0\<rparr> else n x)" if "x \<in> set zs" for x
          using that d(3) zi by (auto simp: Cons)
      qed
      then have "represents ?l ?n2 (erase item xs)"
        using size len d by (simp add: er represents_def ys Cons)
      moreover have "m_previous (?n2 item) = 0" "m_next (?n2 item) = 0"
        using lk(3) zi by (simp_all add: ys)
      moreover have "\<forall>p. p \<notin> set xs \<longrightarrow> ?n2 p = n p"
        by (simp add: xs Cons)
      ultimately show ?thesis
        using e by blast
    qed
  next
    case ys: (Cons y ys')
    define p where "p = last ys"
    define nx where "nx = (case zs of [] \<Rightarrow> 0 | z # rest \<Rightarrow> z)"
    let ?n1 = "n(p := (n p)\<lparr>m_next := nx\<rparr>)"
    let ?n2 = "if nx \<noteq> 0 then ?n1(nx := (?n1 nx)\<lparr>m_previous := p\<rparr>) else ?n1"
    let ?n3 = "?n2(item := \<lparr>m_previous = 0, m_next = 0\<rparr>)"
    let ?l = "l\<lparr>m_size := m_size l - 1\<rparr>"
    have "p \<in> set ys"
      unfolding p_def by (rule last_in_set) (simp add: ys)
    then have pin: "p \<in> set ys" "p \<noteq> 0" "p \<noteq> item" "p \<notin> set zs"
      using nz ny d(4) by auto
    have nxin: "nx = 0 \<or> nx \<in> set zs"
      by (cases zs) (simp_all add: nx_def)
    have nxz: "zs \<noteq> [] \<Longrightarrow> nx = hd zs \<and> nx \<noteq> 0"
      using nz(2) by (cases zs) (auto simp: nx_def)
    have nxn: "nx \<noteq> item" "nx \<notin> set ys" "nx \<noteq> p"
      using nxin lk(2) d(3,4) nz(1) pin by auto
    have pn: "m_previous (n item) = p" "m_next (n item) = nx"
      using lk(3,4) by (simp_all add: p_def nx_def ys)
    have e: "EmbeddedList_erase d item l n = Inr (?l, ?n3)"
      using pin(2,3) by (simp add: EmbeddedList_erase_def ne pn Let_def)
    have a: "linked ?n3 0 ys nx"
    proof (rule linked_last_next [OF lk(1) d(1)])
      show "ys \<noteq> []" by (simp add: ys)
      show "?n3 x = (if x = last ys then (n x)\<lparr>m_next := nx\<rparr> else n x)" if "x \<in> set ys" for x
        using that ny nxn by (auto simp: p_def)
    qed
    have b: "linked ?n3 p zs 0"
    proof (rule linked_first_previous [OF lk(5) d(2)])
      show "?n3 x = (if x = hd zs then (n x)\<lparr>m_previous := p\<rparr> else n x)" if "x \<in> set zs" for x
      proof -
        from that have "zs \<noteq> []" by auto
        from nxz [OF this] that pin d(3) show ?thesis by auto
      qed
    qed
    have yne: "ys \<noteq> []" by (simp add: ys)
    have "linked ?n3 0 (ys @ zs) 0"
      unfolding linked_append using a b yne by (simp only: nx_def p_def if_False simp_thms)
    moreover have "m_first l = (case ys @ zs of [] \<Rightarrow> 0 | x # rest \<Rightarrow> x)"
      using first by (simp add: ys)
    ultimately have "represents ?l ?n3 (erase item xs)"
      unfolding er represents_def using size len d by simp
    moreover have "m_previous (?n3 item) = 0" "m_next (?n3 item) = 0"
      by simp_all
    moreover have "\<forall>q. q \<notin> set xs \<longrightarrow> ?n3 q = n q"
      using pin nxin by (auto simp: xs)
    ultimately show ?thesis
      using e by blast
  qed
qed

subsection \<open>\<open>Terminate\<close> after a wait has timed out\<close>

lemma chain_numeral:
  "chain n (numeral k) p = (if p = 0 then [] else p # chain n (pred_numeral k) (m_next (n p)))"
  by (simp add: numeral_eq_Suc)

lemma timed_waiter_fields:
  "s_timeouts timed_waiter = [3]" "s_ticks timed_waiter = 0" "s_isStarted timed_waiter"
  "\<not> NDEBUG timed_waiter" "s_currentTask timed_waiter = 1" "s_nextTask timed_waiter = 0"
  "\<not> s_criticalSection timed_waiter" "s_ready timed_waiter = [2]"
  "tasks timed_waiter 1 = (started_task 1 0x10)\<lparr>m_stackPointer := 0x20001000\<rparr>"
  "tasks timed_waiter 2 = (started_task 2 0x80)\<lparr>m_stackPointer := 0x20002000\<rparr>"
  "tasks timed_waiter 3 = (started_task 3 0x50)
                             \<lparr>m_stackPointer := 0x20003000, m_waitUntil := Some 1, m_waiting := 7\<rparr>"
  "tasks timed_waiter 4 = (started_task 4 0x90)\<lparr>m_stackPointer := 0x20004000, m_waiting := 7\<rparr>"
  "conditions timed_waiter 7 = (ConditionVariable_new None)\<lparr>m_waitingList := [3, 4]\<rparr>"
  by (simp_all add: timed_waiter_def boot_def Startup_def)

text \<open>One tick on \<open>timed_waiter\<close>: task 3 has timed out and is at the head of the ready
  queue, task 4 is alone on the waiting list, and \<open>waiting_on\<close> of task 3 still names the
  condition variable.\<close>

lemma timed_waiter_tick:
  "\<exists>s'. SystickHandler timed_waiter = Inr (False, s') \<and>
      s_currentTask s' = 1 \<and> s_ready s' = [3, 2] \<and> m_waitingList (conditions s' 7) = [4] \<and>
      m_active (tasks s' 3) \<and> m_waitUntil (tasks s' 3) = None \<and> m_waiting (tasks s' 3) = 7"
proof -
  let ?t = "ticked timed_waiter"
  let ?d = "spec_drain ?t"
  have h: "distinct (s_timeouts timed_waiter)"
    "\<forall>t\<in>set (s_timeouts timed_waiter). m_waitUntil (tasks timed_waiter t) \<noteq> None"
    by (simp_all add: timed_waiter_fields)
  have ex: "expired ?t 3"
    by (simp add: expired_def ticked_fields timed_waiter_fields)
  have dr: "drained ?t = [3]"
    by (simp add: drained_def ticked_fields timed_waiter_fields ex)
  have d: "?d = promote 3 (?t\<lparr>s_timeouts := []\<rparr>)"
    by (simp add: spec_drain_def dr ticked_fields timed_waiter_fields ex)
  have tf: "s_ready ?t = [2]" "s_currentTask ?t = 1" "s_nextTask ?t = 0" "\<not> s_criticalSection ?t"
    "s_isStarted ?t" "\<not> NDEBUG ?t"
    by (simp_all add: ticked_def timed_waiter_fields)
  have pf: "s_currentTask (promote 3 s) = s_currentTask s" "s_nextTask (promote 3 s) = s_nextTask s"
    "s_criticalSection (promote 3 s) = s_criticalSection s" "s_isStarted (promote 3 s) = s_isStarted s"
    for s
    by (simp_all add: promote_def Let_def update_task_def setReturnValue_def removeWaiting_def
        update_condition_def)
  have rd: "s_ready ?d = [3, 2]"
    by (simp add: d promote_ready tf ordered_insert_def priorityIsLower_def ticked_fields
          timed_waiter_fields started_task_def)
  have wl: "m_waitingList (conditions ?d 7) = [4]"
    by (simp add: d promote_waitingList ticked_fields timed_waiter_fields started_task_def)
  have tk: "tasks ?d 3 = (tasks timed_waiter 3)\<lparr>m_waitUntil := None\<rparr>"
    "tasks ?d 1 = tasks timed_waiter 1" "tasks ?d 2 = tasks timed_waiter 2"
    by (simp_all add: d promote_fields ticked_fields)
  have sw: "s_currentTask ?d = 1" "s_nextTask ?d = 0" "\<not> s_criticalSection ?d" "s_isStarted ?d"
    by (simp_all add: d pf tf)
  have pre: "doSwitch_pre ?d"
    by (simp add: doSwitch_pre_def sw)
  have ri: "reinserted ?d = [1, 3, 2]"
    by (simp add: reinserted_def sw rd ordered_insert_def priorityIsLower_def tk timed_waiter_fields
          started_task_def)
  have sp: "spec_do_switch ?d = (False, ?d\<lparr>s_ready := [3, 2], s_nextTask := 0, s_currentTask := 1\<rparr>)"
    by (simp add: spec_do_switch_eq sw ri)
  have "SystickHandler timed_waiter = doSwitch ?d"
    using SystickHandler_refines [OF h] by (simp add: spec_tick_def dr flip: ticked_def)
  then have r: "SystickHandler timed_waiter
      = Inr (False, ?d\<lparr>s_ready := [3, 2], s_nextTask := 0, s_currentTask := 1\<rparr>)"
    by (simp add: doSwitch_refines [OF pre] sp)
  show ?thesis
    unfolding r by (simp add: wl tk timed_waiter_fields started_task_def)
qed

text \<open>
  C7: \<open>Terminate\<close> of a task whose \<open>active\<close> flag is false returns the state unchanged, and
  an active task that is on the waiting list its \<open>waiting_on\<close> names is erased from the lists
  as stated (\<open>Terminate_once_only\<close>). The removal from the waiting list is not the one
  stated in a state that the interface reaches. The tick handler moves a task whose wait
  has timed out to the ready queue and leaves its \<open>waiting_on\<close> set: one tick on
  \<open>timed_waiter\<close> returns with task 1 running, the ready queue \<open>[3, 2]\<close>, task 4 alone on the
  waiting list of the condition variable 7, and task 3 active with \<open>waiting_on = 7\<close>
  (\<open>timed_out_ready\<close> are the \<open>Waiting\<close> nodes of that state, which represent both
  lists). When task 1 now calls \<open>stop()\<close> on task 3, \<open>Terminate\<close> calls \<open>removeWaiting\<close>, which is \<open>erase\<close> on the waiting list, for a task
  whose node is linked in the ready queue. \<open>erase\<close> takes its branch for an item that is
  first and not last: the waiting list gets task 2 as \<open>m_first\<close> and \<open>m_size\<close> 0, so task 4
  is no longer on it, and task 2 is cut from the ready queue, which keeps \<open>m_first\<close> = 3 and
  \<open>m_size\<close> 2 with only task 3 reachable. Debug and release builds agree.
\<close>

theorem stale_waiting_on_cuts_queues:
  "\<exists>s'. SystickHandler timed_waiter = Inr (False, s') \<and>
      s_currentTask s' = 1 \<and> m_active (tasks s' 3) \<and> m_waitUntil (tasks s' 3) = None \<and>
      m_waiting (tasks s' 3) = 7 \<and>
      s_ready s' = [3, 2] \<and> m_waitingList (conditions s' 7) = [4] \<and>
      represents \<lparr>m_first = 3, m_size = 2\<rparr> timed_out_ready (s_ready s') \<and>
      represents \<lparr>m_first = 4, m_size = 1\<rparr> timed_out_ready (m_waitingList (conditions s' 7)) \<and>
      chain timed_out_ready 4 3 = s_ready s' \<and>
      chain timed_out_ready 4 4 = m_waitingList (conditions s' 7) \<and>
      (\<exists>n'. EmbeddedList_erase False 3 \<lparr>m_first = 4, m_size = 1\<rparr> timed_out_ready
               = Inr (\<lparr>m_first = 2, m_size = 0\<rparr>, n') \<and>
             EmbeddedList_erase True 3 \<lparr>m_first = 4, m_size = 1\<rparr> timed_out_ready
               = Inr (\<lparr>m_first = 2, m_size = 0\<rparr>, n') \<and>
             chain n' 4 2 = [2] \<and> chain n' 4 3 = [3] \<and> chain n' 4 4 = [4])"
proof -
  let ?n = "(timed_out_ready(3 := (timed_out_ready 3)\<lparr>m_next := 0\<rparr>))
              (2 := ((timed_out_ready(3 := (timed_out_ready 3)\<lparr>m_next := 0\<rparr>)) 2)\<lparr>m_previous := 0\<rparr>)"
  have e: "EmbeddedList_erase d 3 \<lparr>m_first = 4, m_size = 1\<rparr> timed_out_ready
      = Inr (\<lparr>m_first = 2, m_size = 0\<rparr>, ?n)" for d
    by (simp add: EmbeddedList_erase_def EmbeddedList_empty_def timed_out_ready_def Let_def)
  have c: "chain timed_out_ready 4 3 = [3, 2]" "chain timed_out_ready 4 4 = [4]"
    "chain ?n 4 2 = [2]" "chain ?n 4 3 = [3]" "chain ?n 4 4 = [4]"
    by (simp_all add: timed_out_ready_def chain_numeral)
  from timed_waiter_tick obtain s' where t: "SystickHandler timed_waiter = Inr (False, s')"
    "s_currentTask s' = 1" "s_ready s' = [3, 2]" "m_waitingList (conditions s' 7) = [4]"
    "m_active (tasks s' 3)" "m_waitUntil (tasks s' 3) = None" "m_waiting (tasks s' 3) = 7"
    by blast
  have l: "\<exists>n'. EmbeddedList_erase False 3 \<lparr>m_first = 4, m_size = 1\<rparr> timed_out_ready
               = Inr (\<lparr>m_first = 2, m_size = 0\<rparr>, n') \<and>
             EmbeddedList_erase True 3 \<lparr>m_first = 4, m_size = 1\<rparr> timed_out_ready
               = Inr (\<lparr>m_first = 2, m_size = 0\<rparr>, n') \<and>
             chain n' 4 2 = [2] \<and> chain n' 4 3 = [3] \<and> chain n' 4 4 = [4]"
    using e c by blast
  have r: "represents \<lparr>m_first = 3, m_size = 2\<rparr> timed_out_ready [3, 2]"
    "represents \<lparr>m_first = 4, m_size = 1\<rparr> timed_out_ready [4]"
    by (simp_all add: represents_def timed_out_ready_def)
  show ?thesis
    using t c(1,2) l r by (intro exI [of _ s']) simp
qed

subsection \<open>ConditionVariable::notify_one, notify_all on an empty waiting list\<close>




















subsection \<open>Scheduler::wakeUp from notify_one and notify_all\<close>


lemma woken_task:
  "m_waiting (tasks (woken task condition s) task) = 0"
  "m_waitUntil (tasks (woken task condition s) task) = None"
  "t \<noteq> task \<Longrightarrow> tasks (woken task condition s) t = tasks s t"
  "m_priority (tasks (woken task condition s) t) = m_priority (tasks s t)"
  "m_lastStarted (tasks (woken task condition s) t) = m_lastStarted (tasks s t)"
  "m_stackPointer (tasks (woken task condition s) t) = m_stackPointer (tasks s t)"
  "m_active (tasks (woken task condition s) t) = m_active (tasks s t)"
  by (simp_all add: woken_def Let_def update_task_def setReturnValue_def removeWaiting_def
        update_condition_def has_value_def)



lemma woken_memory:
  "memory (woken task condition s) = (memory s)(returnValueSlot s task := no_timeout)"
  by (simp add: woken_def Let_def update_task_def setReturnValue_def removeWaiting_def
        update_condition_def has_value_def returnValueSlot_def)

lemma woken_returnValue: "returnValue (woken task condition s) task = no_timeout"
proof -
  have "returnValueSlot (woken task condition s) task = returnValueSlot s task"
    by (rule returnValueSlot_cong)
       (use returnValueSlot_not_sp [of s task] in \<open>auto simp: woken_task woken_memory\<close>)
  then show ?thesis
    by (simp add: returnValue_def woken_memory)
qed























































subsection \<open>ConditionVariable::wait_until with a time point in the past\<close>

lemma sint_diff_past:
  fixes a b :: "32 word"
  assumes "sint a < sint b" and "sint b - sint a \<le> 2147483648"
  shows "sint (a - b) = sint a - sint b"
  using assms by (simp add: sint_word_ariths signed_take_bit_int_eq_self)

lemma svc_Wait_timeout_eq:
  assumes "NDEBUG s \<or> (\<forall>t\<in>set (s_timeouts s). m_waitUntil (tasks s t) \<noteq> None)"
  shows "svc_Wait_timeout tmo s =
     Inr (if 0 \<le> sint tmo then
            (let s0 = update_task (s_currentTask s) (\<lambda>t. t\<lparr>m_waitUntil := Some (s_ticks s + tmo)\<rparr>) s
             in s0\<lparr>s_timeouts := insert_by_deadline (tasks s0) (s_currentTask s) (s_timeouts s)\<rparr>)
          else s)"
proof (cases "0 \<le> sint tmo")
  case False
  then show ?thesis by (simp add: svc_Wait_timeout_def)
next
  case True
  let ?s1 = "update_task (s_currentTask s) (\<lambda>t. t\<lparr>m_waitUntil := Some (s_ticks s + tmo)\<rparr>) s"
  have f: "NDEBUG ?s1 = NDEBUG s" "s_currentTask ?s1 = s_currentTask s" "s_timeouts ?s1 = s_timeouts s"
    by (simp_all add: update_task_def)
  have "insert_by_wakeup (NDEBUG s) (tasks ?s1) (s_currentTask s) (s_timeouts s)
      = Inr (insert_by_deadline (tasks ?s1) (s_currentTask s) (s_timeouts s))"
    by (rule insert_by_wakeup_eq) (use assms in \<open>auto simp: update_task_def\<close>)
  then show ?thesis
    using True by (simp add: svc_Wait_timeout_def Let_def f)
qed

lemma svc_Wait_eq:
  assumes "NDEBUG s \<or> (isThread \<and> (\<forall>t\<in>set (s_timeouts s). m_waitUntil (tasks s t) \<noteq> None))"
    and "r0 frame \<noteq> 0" and "s_currentTask s \<noteq> 0" and "r2 frame = 0"
  shows "svc_Wait frame isThread s = doSwitch (Wait_queued (r0 frame) (r1 frame) s)"
proof -
  have t: "svc_Wait_timeout (r1 frame) s =
     Inr (if 0 \<le> sint (r1 frame) then
            (let s0 = update_task (s_currentTask s) (\<lambda>t. t\<lparr>m_waitUntil := Some (s_ticks s + r1 frame)\<rparr>) s
             in s0\<lparr>s_timeouts := insert_by_deadline (tasks s0) (s_currentTask s) (s_timeouts s)\<rparr>)
          else s)"
    by (rule svc_Wait_timeout_eq) (use assms(1) in auto)
  have a: "\<not> assert_fails s isThread" "\<not> assert_fails s (r0 frame \<noteq> 0)"
    "\<not> assert_fails s (s_currentTask s \<noteq> 0)" "\<not> assert_fails s True"
    using assms by (auto simp: assert_fails_def)
  show ?thesis
    using assms(2,3,4)
    by (simp add: svc_Wait_def a t svc_Wait_mutex_def addWaiting_def insert_by_priority_eq
          Wait_queued_def Let_def update_task_def update_condition_def)
qed


lemma now_thread:
  assumes "NDEBUG s \<or> (s_isStarted s \<and> ipsr s = 0)"
  shows "now s = Inr (s_ticks s)"
  using assms
  by (auto simp: now_def assert_fails_def currentPriority_def value_or_def kLowestPriority_def
        kSystickPriority_def FromPreemptSub_def kPreemptionBits_def kMaxPreemptionBits_def
        kOpsyPreemption_def minSub_def)

lemma wait_until_eq:
  assumes "NDEBUG s \<or> (s_isStarted s \<and> ipsr s = 0 \<and> mutex_priority_ok condition s \<and>
             (\<forall>t\<in>set (s_timeouts s). m_waitUntil (tasks s t) \<noteq> None))"
    and "condition \<noteq> 0" and "s_currentTask s \<noteq> 0"
  shows "wait_until condition tp s = doSwitch (Wait_queued condition (tp - s_ticks s) s)"
    and "wait_until condition tp s = wait_for condition (tp - s_ticks s) s"
proof -
  have n: "now s = Inr (s_ticks s)"
    by (rule now_thread) (use assms(1) in auto)
  have a: "\<not> assert_fails s (ipsr s = 0)" "\<not> assert_fails s (mutex_priority_ok condition s)"
    using assms(1) by (auto simp: assert_fails_def)
  let ?f = "\<lparr>r0 = condition, r1 = tp - s_ticks s, r2 = 0, r3 = 0, r12 = 0, lr = 0, pc = 0, psr = 0\<rparr>"
  have "svc_Wait ?f (ipsr s = 0) s = doSwitch (Wait_queued (r0 ?f) (r1 ?f) s)"
    by (rule svc_Wait_eq) (use assms in auto)
  then show "wait_until condition tp s = doSwitch (Wait_queued condition (tp - s_ticks s) s)"
    by (simp add: wait_until_def n wait_for_def a svc_def serviceCallHandler_def
          Wait_def Terminate_def Sleep_def Switch_def)
  show "wait_until condition tp s = wait_for condition (tp - s_ticks s) s"
    by (simp add: wait_until_def n)
qed

lemma Wait_queued_fields:
  "s_isStarted (Wait_queued c tmo s) = s_isStarted s"
  "s_currentTask (Wait_queued c tmo s) = 0"
  "s_nextTask (Wait_queued c tmo s) = s_nextTask s"
  "s_ready (Wait_queued c tmo s) = s_ready s"
  "s_criticalSection (Wait_queued c tmo s) = s_criticalSection s"
  "NDEBUG (Wait_queued c tmo s) = NDEBUG s"
  "m_waiting (tasks (Wait_queued c tmo s) (s_currentTask s)) = c"
  "m_waitUntil (tasks (Wait_queued c tmo s) (s_currentTask s)) =
     (if 0 \<le> sint tmo then Some (s_ticks s + tmo) else m_waitUntil (tasks s (s_currentTask s)))"
  "t \<noteq> s_currentTask s \<Longrightarrow> tasks (Wait_queued c tmo s) t = tasks s t"
  "m_priority (tasks (Wait_queued c tmo s) t) = m_priority (tasks s t)"
  "m_lastStarted (tasks (Wait_queued c tmo s) t) = m_lastStarted (tasks s t)"
  "\<not> 0 \<le> sint tmo \<Longrightarrow> s_timeouts (Wait_queued c tmo s) = s_timeouts s"
  "0 \<le> sint tmo \<Longrightarrow> s_timeouts (Wait_queued c tmo s) =
     insert_by_deadline ((tasks s)(s_currentTask s :=
        (tasks s (s_currentTask s))\<lparr>m_waitUntil := Some (s_ticks s + tmo)\<rparr>)) (s_currentTask s) (s_timeouts s)"
  by (simp_all add: Wait_queued_def Let_def update_task_def update_condition_def)

lemma Wait_queued_waitingList:
  "m_waitingList (conditions (Wait_queued c tmo s) c) =
     ordered_insert (tasks s) (s_currentTask s) (m_waitingList (conditions s c))"
proof -
  let ?ts = "(tasks s)(s_currentTask s :=
        (tasks s (s_currentTask s))\<lparr>m_waitUntil := Some (s_ticks s + tmo)\<rparr>)"
  have c: "ordered_insert ?ts (s_currentTask s) (m_waitingList (conditions s c))
      = ordered_insert (tasks s) (s_currentTask s) (m_waitingList (conditions s c))"
    by (rule ordered_insert_cong) simp_all
  show ?thesis
  proof (cases "0 \<le> sint tmo")
    case True
    then have "m_waitingList (conditions (Wait_queued c tmo s) c) =
        ordered_insert ?ts (s_currentTask s) (m_waitingList (conditions s c))"
      by (simp add: Wait_queued_def Let_def update_task_def update_condition_def)
    then show ?thesis by (simp only: c)
  next
    case False
    then show ?thesis
      by (simp add: Wait_queued_def Let_def update_task_def update_condition_def)
  qed
qed


lemma dropWhile_not_taken:
  "distinct xs \<Longrightarrow> u \<in> set (dropWhile P xs) \<Longrightarrow> u \<notin> set (takeWhile P xs)"
  by (metis distinct_append IntI empty_iff takeWhile_dropWhile_id)

lemma tick_keeps_waiting:
  assumes d: "distinct (s_timeouts s)"
    and a: "\<forall>t\<in>set (s_timeouts s). m_waitUntil (tasks s t) \<noteq> None"
    and w: "waits_without_deadline s task condition"
    and r: "SystickHandler s = Inr (b, s')"
  shows "distinct (s_timeouts s')"
    and "\<forall>t\<in>set (s_timeouts s'). m_waitUntil (tasks s' t) \<noteq> None"
    and "waits_without_deadline s' task condition"
proof -
  let ?d = "spec_drain (ticked s)"
  let ?s0 = "ticked s\<lparr>s_timeouts := dropWhile (expired (ticked s)) (s_timeouts (ticked s))\<rparr>"
  have sd: "?d = fold promote (drained (ticked s)) ?s0"
    by (simp add: spec_drain_def)
  have e: "SystickHandler s =
           (if drained (ticked s) \<noteq> [] then doSwitch ?d else Inr (False, ?d))"
    using SystickHandler_refines [OF d a] by (simp add: spec_tick_def ticked_def Let_def)
  have f: "s_timeouts s' = s_timeouts ?d \<and> tasks s' = tasks ?d \<and> conditions s' = conditions ?d"
  proof (cases "drained (ticked s) = []")
    case True
    with r e have "s' = ?d" by simp
    then show ?thesis by simp
  next
    case False
    with r e have "doSwitch ?d = Inr (b, s')" by simp
    from doSwitch_preserves [OF this] show ?thesis by simp
  qed
  have tq: "s_timeouts ?d = dropWhile (expired (ticked s)) (s_timeouts s)"
    by (simp add: sd fold_promote_fields ticked_fields)
  have dr: "drained (ticked s) = takeWhile (expired (ticked s)) (s_timeouts s)"
    by (simp add: drained_def ticked_fields)
  have ts: "tasks ?d t =
     (if t \<in> set (drained (ticked s)) then (tasks s t)\<lparr>m_waitUntil := None\<rparr> else tasks s t)" for t
    unfolding sd by (simp add: fold_promote_tasks ticked_fields)
  show "distinct (s_timeouts s')"
    using d by (simp add: f tq distinct_dropWhile)
  show "\<forall>t\<in>set (s_timeouts s'). m_waitUntil (tasks s' t) \<noteq> None"
  proof
    fix t assume "t \<in> set (s_timeouts s')"
    then have m: "t \<in> set (dropWhile (expired (ticked s)) (s_timeouts s))"
      by (simp add: f tq)
    then have "t \<notin> set (drained (ticked s))"
      unfolding dr by (rule dropWhile_not_taken [OF d])
    moreover have "t \<in> set (s_timeouts s)"
      using m set_dropWhileD by fastforce
    ultimately show "m_waitUntil (tasks s' t) \<noteq> None"
      using a by (simp add: f ts)
  qed
  have nt: "task \<notin> set (s_timeouts s)" "task \<in> set (m_waitingList (conditions s condition))"
    "m_waiting (tasks s task) = condition" "m_waitUntil (tasks s task) = None"
    using w by (simp_all add: waits_without_deadline_def)
  have nd: "task \<notin> set (drained (ticked s))"
    using nt(1) set_takeWhileD unfolding dr by fastforce
  have wl: "task \<in> set (m_waitingList (conditions ?d condition))"
    unfolding sd
    by (rule fold_promote_waiting_kept [OF nd]) (use nt(2) in \<open>simp add: ticked_def\<close>)
  have "task \<notin> set (s_timeouts s')"
    using nt(1) set_dropWhileD by (fastforce simp: f tq)
  then show "waits_without_deadline s' task condition"
    using wl nt nd by (simp add: waits_without_deadline_def f ts)
qed

lemma tick_returns:
  assumes d: "distinct (s_timeouts s)"
    and a: "\<forall>t\<in>set (s_timeouts s). m_waitUntil (tasks s t) \<noteq> None"
    and i: "s_isStarted s" "\<not> s_criticalSection s" "s_currentTask s = 0"
  shows "\<exists>b s'. SystickHandler s = Inr (b, s') \<and> s_isStarted s' \<and> \<not> s_criticalSection s' \<and>
           s_currentTask s' = 0"
proof -
  let ?d = "spec_drain (ticked s)"
  have e: "SystickHandler s =
           (if drained (ticked s) \<noteq> [] then doSwitch ?d else Inr (False, ?d))"
    using SystickHandler_refines [OF d a] by (simp add: spec_tick_def ticked_def Let_def)
  have f: "s_isStarted ?d" "\<not> s_criticalSection ?d" "s_currentTask ?d = 0"
    using i by (simp_all add: spec_drain_def fold_promote_switch_fields ticked_def)
  show ?thesis
  proof (cases "drained (ticked s) = []")
    case True
    then show ?thesis using e f by auto
  next
    case False
    have "doSwitch_pre ?d"
      using f by (simp add: doSwitch_pre_def)
    then have r: "doSwitch ?d = Inr (spec_do_switch ?d)"
      by (rule doSwitch_refines)
    obtain b s' where p: "spec_do_switch ?d = (b, s')" by (cases "spec_do_switch ?d")
    note k = doSwitch_preserves [of ?d b s', OF r [unfolded p]]
    have c: "s_currentTask s' = 0"
      using spec_do_switch_no_current [OF f(3) f(2)] by (simp add: p)
    show ?thesis
      using False e r p c f by (auto simp: k)
  qed
qed

lemma ticks_return_waiting:
  assumes "distinct (s_timeouts s)"
    and "\<forall>t\<in>set (s_timeouts s). m_waitUntil (tasks s t) \<noteq> None"
    and "s_isStarted s" and "\<not> s_criticalSection s" and "s_currentTask s = 0"
    and "waits_without_deadline s task condition"
  shows "\<exists>s'. SystickHandler_times n s = Inr s' \<and> waits_without_deadline s' task condition"
  using assms
proof (induction n arbitrary: s)
  case 0
  then show ?case by simp
next
  case (Suc n)
  from tick_returns [OF Suc.prems(1-5)]
  obtain b s1 where r: "SystickHandler s = Inr (b, s1)"
    and i: "s_isStarted s1" "\<not> s_criticalSection s1" "s_currentTask s1 = 0"
    by blast
  note k = tick_keeps_waiting [OF Suc.prems(1,2,6) r]
  from Suc.IH [OF k(1,2) i k(3)]
  show ?case by (simp add: r)
qed

lemma ticked_three_tasks_fields:
  "s_isStarted (ticked three_tasks)" "ipsr (ticked three_tasks) = 0"
  "\<not> s_criticalSection (ticked three_tasks)" "s_currentTask (ticked three_tasks) = 1"
  "s_timeouts (ticked three_tasks) = []" "s_ticks (ticked three_tasks) = 1"
  "conditions (ticked three_tasks) 7 = ConditionVariable_new None"
  "tasks (ticked three_tasks) 1 = started_task 1 0x10"
  "\<not> NDEBUG (ticked three_tasks)" "s_nextTask (ticked three_tasks) = 0"
  by (simp_all add: ticked_def three_tasks_def boot_def Startup_def)

text \<open>
  C5, as stated, fails for a time point so far in the past that \<open>tp - now()\<close> leaves the
  32-bit \<open>duration\<close>: with \<open>now() = 1\<close> and \<open>tp = -2147483648\<close> the difference wraps to
  \<open>2147483647\<close>, which is not negative, and \<open>Wait\<close> gives the task a deadline and a timeout
  entry.
\<close>

theorem wait_until_far_past_counterexample:
  "s_isStarted (ticked three_tasks) \<and> ipsr (ticked three_tasks) = 0 \<and>
   \<not> s_criticalSection (ticked three_tasks) \<and> s_currentTask (ticked three_tasks) = 1 \<and>
   s_timeouts (ticked three_tasks) = [] \<and> m_waitUntil (tasks (ticked three_tasks) 1) = None \<and>
   s_ticks (ticked three_tasks) = 1 \<and>
   sint (0x80000000 :: 32 word) < sint (s_ticks (ticked three_tasks)) \<and>
   0 \<le> sint (0x80000000 - s_ticks (ticked three_tasks)) \<and>
   (\<exists>b s'. wait_until 7 0x80000000 (ticked three_tasks) = Inr (b, s') \<and>
      m_waitUntil (tasks s' 1) = Some 0x80000000 \<and> s_timeouts s' = [1])"
proof -
  let ?s = "ticked three_tasks"
  let ?q = "Wait_queued 7 (0x80000000 - s_ticks ?s) ?s"
  have m: "mutex_priority_ok 7 ?s"
    by (simp add: mutex_priority_ok_def ticked_three_tasks_fields ConditionVariable_new_def
          PriorityMutex_new_def value_or_def)
  have e: "wait_until 7 0x80000000 ?s = doSwitch ?q"
    by (rule wait_until_eq) (simp_all add: ticked_three_tasks_fields m)
  have "doSwitch_pre ?q"
    by (simp add: doSwitch_pre_def Wait_queued_fields ticked_three_tasks_fields)
  then have d: "doSwitch ?q = Inr (spec_do_switch ?q)"
    by (rule doSwitch_refines)
  obtain b s' where r: "spec_do_switch ?q = (b, s')" by (cases "spec_do_switch ?q")
  have p: "tasks s' = tasks ?q" "s_timeouts s' = s_timeouts ?q"
    using doSwitch_preserves [of ?q b s'] d r by simp_all
  have w: "m_waitUntil (tasks ?q 1) = Some 0x80000000"
    using Wait_queued_fields(8) [of 7 "0x80000000 - s_ticks ?s" ?s]
    by (simp add: ticked_three_tasks_fields)
  have t: "s_timeouts ?q = [1]"
    using Wait_queued_fields(13) [of "0x80000000 - s_ticks ?s" 7 ?s]
    by (simp add: ticked_three_tasks_fields insert_by_deadline_def)
  show ?thesis
    using e d r w t
    by (simp add: p ticked_three_tasks_fields started_task_def TaskControlBlock_new_def)
qed

text \<open>
  C5, amended: \<open>wait_until(tp)\<close> is \<open>wait_for(tp - now())\<close>, which issues \<open>Wait\<close> with that timeout;
  the handler sets \<open>wait_until = ticks + timeout\<close> and queues the task in the timeout queue
  when \<open>timeout \<ge> 0\<close>, and leaves both alone when \<open>timeout < 0\<close>. For a task in thread mode,
  outside a critical section, on a started scheduler, and a time point in the past by at
  most \<open>2147483648\<close> ms (so that \<open>tp - now()\<close> does not wrap), the timeout is negative, the
  call returns from the handler with the timeout queue unchanged, the task on the waiting
  list of the condition variable where the priority order places it, \<open>waiting_on\<close> set and no
  deadline; and every number of ticks that follow returns and leaves the task so: the tick
  handler never wakes it.
\<close>

theorem wait_until_past_blocks:
  assumes "s_isStarted s" and "ipsr s = 0" and "\<not> s_criticalSection s"
    and "mutex_priority_ok condition s" and "condition \<noteq> 0" and "s_currentTask s \<noteq> 0"
    and "distinct (s_timeouts s)"
    and "\<forall>t\<in>set (s_timeouts s). m_waitUntil (tasks s t) \<noteq> None"
    and "m_waitUntil (tasks s (s_currentTask s)) = None"
    and "sint tp < sint (s_ticks s)" and "sint (s_ticks s) - sint tp \<le> 2147483648"
  shows "wait_until condition tp s = wait_for condition (tp - s_ticks s) s \<and>
     wait_for condition (tp - s_ticks s) s = doSwitch (Wait_queued condition (tp - s_ticks s) s) \<and>
     (\<forall>tmo. 0 \<le> sint tmo \<longrightarrow>
        (\<exists>s1. svc_Wait_timeout tmo s = Inr s1 \<and>
           m_waitUntil (tasks s1 (s_currentTask s)) = Some (s_ticks s + tmo) \<and>
           s_timeouts s1 = insert_by_deadline (tasks s1) (s_currentTask s) (s_timeouts s) \<and>
           s_currentTask s \<in> set (s_timeouts s1))) \<and>
     (\<forall>tmo. sint tmo < 0 \<longrightarrow> svc_Wait_timeout tmo s = Inr s) \<and>
     sint (tp - s_ticks s) < 0 \<and>
     (\<exists>b s'. wait_until condition tp s = Inr (b, s') \<and>
        s_timeouts s' = s_timeouts s \<and> s_currentTask s' = 0 \<and>
        m_waitingList (conditions s' condition) =
          ordered_insert (tasks s) (s_currentTask s) (m_waitingList (conditions s condition)) \<and>
        waits_without_deadline s' (s_currentTask s) condition \<and>
        (\<forall>n. \<exists>s''. SystickHandler_times n s' = Inr s'' \<and>
           waits_without_deadline s'' (s_currentTask s) condition))"
proof -
  let ?c = "s_currentTask s"
  let ?tmo = "tp - s_ticks s"
  let ?q = "Wait_queued condition ?tmo s"
  have neg: "sint ?tmo < 0"
    using sint_diff_past [OF assms(10,11)] assms(10) by simp
  have e: "wait_until condition tp s = doSwitch ?q"
    "wait_until condition tp s = wait_for condition ?tmo s"
    by (rule wait_until_eq, use assms in simp_all)+
  have tm: "svc_Wait_timeout tmo s =
     Inr (if 0 \<le> sint tmo then
            (let s0 = update_task ?c (\<lambda>t. t\<lparr>m_waitUntil := Some (s_ticks s + tmo)\<rparr>) s
             in s0\<lparr>s_timeouts := insert_by_deadline (tasks s0) ?c (s_timeouts s)\<rparr>)
          else s)" for tmo
    by (rule svc_Wait_timeout_eq) (use assms(8) in simp)
  have pos: "\<exists>s1. svc_Wait_timeout tmo s = Inr s1 \<and>
           m_waitUntil (tasks s1 ?c) = Some (s_ticks s + tmo) \<and>
           s_timeouts s1 = insert_by_deadline (tasks s1) ?c (s_timeouts s) \<and>
           ?c \<in> set (s_timeouts s1)" if "0 \<le> sint tmo" for tmo
    using that by (simp add: tm Let_def update_task_def set_insert_by_deadline)
  have "doSwitch_pre ?q"
    using assms by (simp add: doSwitch_pre_def Wait_queued_fields)
  then have d: "doSwitch ?q = Inr (spec_do_switch ?q)"
    by (rule doSwitch_refines)
  obtain b s' where r: "spec_do_switch ?q = (b, s')" by (cases "spec_do_switch ?q")
  note p = doSwitch_preserves [of ?q b s', OF d [unfolded r]]
  have cur: "s_currentTask s' = 0"
    using spec_do_switch_no_current [of ?q] assms(3) by (simp add: Wait_queued_fields r)
  have tq: "s_timeouts s' = s_timeouts s"
    using neg by (simp add: p Wait_queued_fields)
  have wl: "m_waitingList (conditions s' condition) =
          ordered_insert (tasks s) ?c (m_waitingList (conditions s condition))"
    by (simp add: p Wait_queued_waitingList)
  have nt: "?c \<notin> set (s_timeouts s)"
    using assms(8,9) by auto
  have nt': "?c \<notin> set (s_timeouts s')"
    using nt by (simp add: tq)
  have wu: "m_waitUntil (tasks s' ?c) = None" "m_waiting (tasks s' ?c) = condition"
    using neg assms(9) by (simp_all add: p Wait_queued_fields)
  have ww: "waits_without_deadline s' ?c condition"
    using nt' wu by (simp add: waits_without_deadline_def wl set_ordered_insert)
  have d': "distinct (s_timeouts s')" using assms(7) by (simp add: tq)
  have a': "\<forall>t\<in>set (s_timeouts s'). m_waitUntil (tasks s' t) \<noteq> None"
  proof
    fix t assume "t \<in> set (s_timeouts s')"
    then have m: "t \<in> set (s_timeouts s)" by (simp add: tq)
    with nt have "t \<noteq> ?c" by auto
    then show "m_waitUntil (tasks s' t) \<noteq> None"
      using assms(8) m by (simp add: p Wait_queued_fields)
  qed
  have i': "s_isStarted s'" "\<not> s_criticalSection s'"
    using assms(1,3) by (simp_all add: p Wait_queued_fields)
  have fw: "\<exists>s''. SystickHandler_times n s' = Inr s'' \<and> waits_without_deadline s'' ?c condition" for n
    by (rule ticks_return_waiting [OF d' a' i' cur ww])
  have ex: "\<exists>b s'. wait_until condition tp s = Inr (b, s') \<and>
        s_timeouts s' = s_timeouts s \<and> s_currentTask s' = 0 \<and>
        m_waitingList (conditions s' condition) =
          ordered_insert (tasks s) ?c (m_waitingList (conditions s condition)) \<and>
        waits_without_deadline s' ?c condition \<and>
        (\<forall>n. \<exists>s''. SystickHandler_times n s' = Inr s'' \<and>
           waits_without_deadline s'' ?c condition)"
    by (rule exI [of _ b], rule exI [of _ s']) (use e d r tq cur wl ww fw in simp)
  have wf: "wait_for condition ?tmo s = doSwitch ?q"
    using e by simp
  have ng: "svc_Wait_timeout tmo s = Inr s" if "sint tmo < 0" for tmo
    using that by (simp add: tm)
  from pos have pos': "\<forall>tmo. 0 \<le> sint tmo \<longrightarrow>
        (\<exists>s1. svc_Wait_timeout tmo s = Inr s1 \<and>
           m_waitUntil (tasks s1 ?c) = Some (s_ticks s + tmo) \<and>
           s_timeouts s1 = insert_by_deadline (tasks s1) ?c (s_timeouts s) \<and>
           ?c \<in> set (s_timeouts s1))"
    by (intro allI impI)
  from ng have ng': "\<forall>tmo. sint tmo < 0 \<longrightarrow> svc_Wait_timeout tmo s = Inr s"
    by (intro allI impI)
  show ?thesis
    by (intro conjI) (rule e(2) wf pos' ng' neg ex)+
qed



theorem wait_until_past_blocks_witness:
  "s_isStarted (ticked three_tasks) \<and> ipsr (ticked three_tasks) = 0 \<and>
   \<not> s_criticalSection (ticked three_tasks) \<and> mutex_priority_ok 7 (ticked three_tasks) \<and>
   s_currentTask (ticked three_tasks) = 1 \<and> s_timeouts (ticked three_tasks) = [] \<and>
   m_waitUntil (tasks (ticked three_tasks) 1) = None \<and>
   sint (0 :: 32 word) < sint (s_ticks (ticked three_tasks)) \<and>
   sint (0 - s_ticks (ticked three_tasks)) < 0 \<and>
   (\<exists>b s'. wait_until 7 0 (ticked three_tasks) = Inr (b, s') \<and> s_timeouts s' = [] \<and>
      s_currentTask s' = 0 \<and> m_waitingList (conditions s' 7) = [1] \<and>
      m_waiting (tasks s' 1) = 7 \<and> m_waitUntil (tasks s' 1) = None)"
proof -
  let ?s = "ticked three_tasks"
  have m: "mutex_priority_ok 7 ?s"
    by (simp add: mutex_priority_ok_def ticked_three_tasks_fields ConditionVariable_new_def
          PriorityMutex_new_def value_or_def)
  have h: "s_isStarted ?s" "ipsr ?s = 0" "\<not> s_criticalSection ?s" "mutex_priority_ok 7 ?s"
    "(7 :: pointer) \<noteq> 0" "s_currentTask ?s \<noteq> 0" "distinct (s_timeouts ?s)"
    "\<forall>t\<in>set (s_timeouts ?s). m_waitUntil (tasks ?s t) \<noteq> None"
    "m_waitUntil (tasks ?s (s_currentTask ?s)) = None"
    "sint (0 :: 32 word) < sint (s_ticks ?s)" "sint (s_ticks ?s) - sint (0 :: 32 word) \<le> 2147483648"
    by (simp_all add: ticked_three_tasks_fields m started_task_def TaskControlBlock_new_def)
  note t = wait_until_past_blocks [OF h]
  from t have n: "sint (0 - s_ticks ?s) < 0" by blast
  from t obtain b s' where r: "wait_until 7 0 ?s = Inr (b, s')" "s_timeouts s' = s_timeouts ?s"
    "s_currentTask s' = 0"
    "m_waitingList (conditions s' 7) =
       ordered_insert (tasks ?s) (s_currentTask ?s) (m_waitingList (conditions ?s 7))"
    "waits_without_deadline s' (s_currentTask ?s) 7"
    by blast
  have l: "m_waitingList (conditions s' 7) = [1]"
    by (simp add: r(4) ticked_three_tasks_fields ConditionVariable_new_def ordered_insert_simps)
  show ?thesis
    using h n r l
    by (auto simp: ticked_three_tasks_fields waits_without_deadline_def)
qed

subsection \<open>The order of the ready queue\<close>

lemma sorted_front_first:
  assumes "sorted_by_priority ts (h # rest)" and "y \<in> set rest"
  shows "\<not> priorityIsLower ts y h"
  using assms by (auto simp: sorted_by_priority_def)

lemma sorted_priority_ascending:
  assumes "sorted_by_priority ts xs" and "i < j" and "j < length xs"
  shows "m_priority (ts (xs ! i)) \<le> m_priority (ts (xs ! j))"
proof -
  have "\<not> priorityIsLower ts (xs ! j) (xs ! i)"
    using assms by (simp add: sorted_by_priority_def sorted_wrt_iff_nth_less)
  then show ?thesis
    by (auto simp: priorityIsLower_def split: if_splits)
qed

lemma round_robin_among_peers:
  assumes "sorted_by_priority ts xs" and "i < j" and "j < length xs"
    and "m_priority (ts (xs ! i)) = m_priority (ts (xs ! j))"
  shows "sint (m_lastStarted (ts (xs ! i))) \<le> sint (m_lastStarted (ts (xs ! j)))"
proof -
  have "\<not> priorityIsLower ts (xs ! j) (xs ! i)"
    using assms by (simp add: sorted_by_priority_def sorted_wrt_iff_nth_less)
  then show ?thesis
    using assms(4) by (auto simp: priorityIsLower_def split: if_splits)
qed

lemma sorted_erase:
  "sorted_by_priority ts xs \<Longrightarrow> sorted_by_priority ts (erase x xs)"
  unfolding sorted_by_priority_def
proof (induction xs)
  case Nil
  then show ?case by simp
next
  case (Cons y ys)
  have "set (erase x ys) \<subseteq> set ys" by (rule set_erase_subset)
  with Cons show ?case by (cases "y = x") auto
qed

lemma sorted_by_priority_cong_on:
  assumes "\<And>t. t \<in> set xs \<Longrightarrow> m_priority (ts' t) = m_priority (ts t)"
    and "\<And>t. t \<in> set xs \<Longrightarrow> m_lastStarted (ts' t) = m_lastStarted (ts t)"
  shows "sorted_by_priority ts' xs = sorted_by_priority ts xs"
proof -
  have e: "priorityIsLower ts' b a = priorityIsLower ts b a" if "a \<in> set xs" "b \<in> set xs" for a b
    using that assms by (simp add: priorityIsLower_def)
  show ?thesis
    unfolding sorted_by_priority_def
  proof
    assume "sorted_wrt (\<lambda>a b. \<not> priorityIsLower ts' b a) xs"
    then show "sorted_wrt (\<lambda>a b. \<not> priorityIsLower ts b a) xs"
      by (rule sorted_wrt_mono_rel [rotated]) (simp add: e)
  next
    assume "sorted_wrt (\<lambda>a b. \<not> priorityIsLower ts b a) xs"
    then show "sorted_wrt (\<lambda>a b. \<not> priorityIsLower ts' b a) xs"
      by (rule sorted_wrt_mono_rel [rotated]) (simp add: e)
  qed
qed

text \<open>Where the task is started and in the ready queue, with \<open>waiting_on\<close> null and no
  deadline, \<open>updatePriority\<close> re-inserts it and the ready queue stays sorted.\<close>

lemma updatePriority_ready_sorted:
  assumes a: "m_active (tasks s task)" "task \<noteq> s_currentTask s" "task \<noteq> s_nextTask s"
    "m_waiting (tasks s task) = 0" "m_waitUntil (tasks s task) = None"
    and m: "task \<in> set (s_ready s)"
    and srt: "sorted_by_priority (tasks s) (s_ready s)" and d: "distinct (s_ready s)"
    and r: "updatePriority task p s = Inr s'"
  shows "sorted_by_priority (tasks s') (s_ready s')"
proof -
  let ?s1 = "update_task task (\<lambda>t. t\<lparr>m_priority := p\<rparr>) (s\<lparr>basepri := kServiceCallPriority\<rparr>)"
  let ?r = "ordered_insert (tasks ?s1) task (erase task (s_ready s))"
  let ?s2 = "?s1\<lparr>s_ready := ?r\<rparr>"
  have f: "m_active (tasks ?s1 task)" "s_currentTask ?s1 = s_currentTask s"
    "s_nextTask ?s1 = s_nextTask s" "m_waiting (tasks ?s1 task) = 0"
    "m_waitUntil (tasks ?s1 task) = None" "s_ready ?s1 = s_ready s" "NDEBUG ?s1 = NDEBUG s"
    using a by (simp_all add: update_task_def)
  have ne: "?r \<noteq> []"
    by (simp add: ordered_insert_def)
  then obtain h rest where hr: "?r = h # rest" by (cases ?r) auto
  have "task \<notin> set (erase task (s_ready s))"
    by (rule erase_absent [OF d])
  then have "sorted_by_priority (tasks ?s1) (erase task (s_ready s))
      = sorted_by_priority (tasks s) (erase task (s_ready s))"
    by (intro sorted_by_priority_cong_on) (auto simp: update_task_def)
  then have "sorted_by_priority (tasks ?s1) (erase task (s_ready s))"
    using srt by (simp add: sorted_erase)
  then have s2: "sorted_by_priority (tasks ?s2) (s_ready ?s2)"
    by (simp add: sorted_ordered_insert)
  have e: "updatePriority task p s =
     (case (if h = task then (case doSwitch ?s2 of Inl e \<Rightarrow> Inl e | Inr (b, s3) \<Rightarrow> Inr s3)
            else Inr ?s2) of
        Inl e \<Rightarrow> Inl e
      | Inr s' \<Rightarrow> Inr (snd (setBasepri (basepri s) s')))"
    using a(2,3)
    by (simp add: updatePriority_def setBasepri_def Let_def isStarted_def f has_value_def
          insert_by_priority_eq front_def hr)
  show ?thesis
  proof (cases "h = task")
    case False
    with e r have "s' = snd (setBasepri (basepri s) ?s2)" by simp
    with s2 show ?thesis by (simp add: setBasepri_def)
  next
    case True
    with e r obtain b s3 where d3: "doSwitch ?s2 = Inr (b, s3)"
      and s': "s' = snd (setBasepri (basepri s) s3)"
      by (auto split: sum.splits)
    from d3 have "(b, s3) = spec_do_switch ?s2" by (simp add: doSwitch_Inr_iff)
    then have "s3 = snd (spec_do_switch ?s2)" by (metis snd_conv)
    with spec_do_switch_sorted [OF s2] show ?thesis
      by (simp add: s' setBasepri_def)
  qed
qed

lemma stop_ready_task:
  "TaskControlBlock_stop 2 three_tasks = Inr (True, Terminate_unlink 2 three_tasks)"
  by (simp add: TaskControlBlock_stop_def isStarted_def svc_def serviceCallHandler_def
        svc_Terminate_def assert_fails_def three_tasks_fields started_task_def
        Terminate_unlink_same Terminate_def Let_def)

lemma priority_of_stopped_task:
  "TaskControlBlock_priority 2 0xFF (Terminate_unlink 2 three_tasks) =
     Inr (update_task 2 (\<lambda>t. t\<lparr>m_priority := 0xFF\<rparr>) (Terminate_unlink 2 three_tasks))"
proof -
  let ?s = "Terminate_unlink 2 three_tasks"
  have p: "m_priority (tasks ?s 2) = 0x80" "basepri ?s = 0"
    by (simp_all add: Terminate_unlink_def Let_def update_task_def removeWaiting_def
          update_condition_def has_value_def three_tasks_def boot_def started_task_def
          TaskControlBlock_new_def)
  have a: "\<not> m_active (tasks ?s 2)"
    by (simp add: Terminate_unlink_task)
  show ?thesis
    using a
    by (simp add: TaskControlBlock_priority_def p updatePriority_def setBasepri_def Let_def
          isStarted_def update_task_def)
qed

text \<open>
  C2: every insertion into the ready queue and into a waiting list goes through
  \<open>insertWhen\<close> with \<open>priorityIsLower\<close> (\<open>insert_by_priority\<close>, which is \<open>ordered_insert\<close>), an
  insertion keeps a sorted list sorted (\<open>sorted_ordered_insert\<close>), and in a sorted list
  priorities ascend and equal priorities are in the order of \<open>last_started\<close>
  (\<open>sorted_priority_ascending\<close>, \<open>round_robin_among_peers\<close>). The queue is nevertheless not
  always sorted. \<open>Terminate\<close> leaves a stopped task that was ready in the ready queue, and
  \<open>updatePriority\<close> writes the new priority of a task that is not started without
  re-inserting it: from the sorted ready queue \<open>[2, 3]\<close> of \<open>three_tasks\<close>, \<open>stop()\<close> on task 2
  followed by \<open>priority(0xFF)\<close> on it both return, and leave the ready queue \<open>[2, 3]\<close> with
  the inactive task 2 of priority \<open>0xFF\<close> in front of task 3 of priority \<open>0x90\<close>.
\<close>

theorem ready_queue_order_lost:
  "sorted_by_priority (tasks three_tasks) (s_ready three_tasks) \<and>
   (\<exists>s1 s2. TaskControlBlock_stop 2 three_tasks = Inr (True, s1) \<and>
      TaskControlBlock_priority 2 0xFF s1 = Inr s2 \<and>
      s_ready s2 = [2, 3] \<and> \<not> m_active (tasks s2 2) \<and>
      m_priority (tasks s2 2) = 0xFF \<and> m_priority (tasks s2 3) = 0x90 \<and>
      \<not> sorted_by_priority (tasks s2) (s_ready s2))"
proof -
  let ?s1 = "Terminate_unlink 2 three_tasks"
  let ?s2 = "update_task 2 (\<lambda>t. t\<lparr>m_priority := 0xFF\<rparr>) ?s1"
  have srt: "sorted_by_priority (tasks three_tasks) (s_ready three_tasks)"
    by (simp add: sorted_by_priority_def priorityIsLower_def three_tasks_fields started_task_def
          TaskControlBlock_new_def)
  have r: "s_ready ?s2 = [2, 3]"
    by (simp add: update_task_def Terminate_unlink_same three_tasks_fields)
  have t2: "\<not> m_active (tasks ?s2 2)" "m_priority (tasks ?s2 2) = 0xFF"
    by (simp_all add: update_task_def Terminate_unlink_task)
  have t3: "m_priority (tasks ?s2 3) = 0x90"
    by (simp add: update_task_def Terminate_unlink_same three_tasks_fields started_task_def)
  have ns: "\<not> sorted_by_priority (tasks ?s2) (s_ready ?s2)"
    by (simp add: r sorted_by_priority_def priorityIsLower_def t2 t3)
  show ?thesis
    using srt stop_ready_task priority_of_stopped_task r t2 t3 ns by blast
qed

end
